theory Spec2Isabelle
  imports Complex_Main
begin

section \<open>Data model of the isobaric temperature field\<close>

text \<open>
  The routine \<^verbatim>\<open>ext_temperature\<close> of \<^verbatim>\<open>to_Lorenz.py\<close> works on an xarray
  DataArray whose \<^verbatim>\<open>level\<close> dimension carries two coordinates: the pressure label
  \<^verbatim>\<open>level\<close> and the derived \<^verbatim>\<open>standard_height\<close>. One position of the level
  dimension is a slab: its two coordinates and the values of all remaining dimensions
  (time, latitude, longitude) flattened into one list. A value is a float or NaN; NaN is
  \<open>None\<close>, and arithmetic on the present values is that of the reals. The field is the list
  of slabs in the order in which the array stores them. Pressures are numbers of hPa, the
  unit of every threshold in the routine, so \<^verbatim>\<open>dequantify\<close> is the identity; the progress
  messages written by \<^verbatim>\<open>print\<close> are left out.
\<close>

datatype error = KeyError | IndexError

record slab =
  level :: real
  standard_height :: real
  cells :: "real option list"

type_synonym field = "slab list"

subsection \<open>Indexing\<close>

text \<open>Python and numpy indexing by position: a negative index counts from the end.\<close>

definition getitem :: "'a list \<Rightarrow> int \<Rightarrow> error + 'a" where
  "getitem xs k =
     (let n = int (length xs); j = (if k < 0 then n + k else k)
      in if 0 \<le> j \<and> j < n then Inr (xs ! nat j) else Inl IndexError)"

text \<open>\<^verbatim>\<open>t_isob_z.sel(level=lev)\<close>: selection by label; an absent label raises. The level
  coordinate is an index of distinct labels; what is proved about selection and assignment
  by label assumes \<open>distinct (map level f)\<close>.\<close>

definition sel :: "field \<Rightarrow> real \<Rightarrow> error + slab" where
  "sel f lev = (case find (\<lambda>s. level s = lev) f of None \<Rightarrow> Inl KeyError | Some s \<Rightarrow> Inr s)"

text \<open>\<^verbatim>\<open>t_isob_z.isel(level=k)\<close>: selection by position in the stored order.\<close>

definition isel :: "field \<Rightarrow> int \<Rightarrow> error + slab" where
  "isel f k = getitem f k"

text \<open>\<^verbatim>\<open>t_isob_z.loc[dict(level=lev)] = new\<close>: assignment by label.\<close>

definition loc_assign :: "field \<Rightarrow> real \<Rightarrow> real option list \<Rightarrow> field" where
  "loc_assign f lev new = map (\<lambda>s. if level s = lev then s\<lparr>cells := new\<rparr> else s) f"

subsection \<open>NaN-propagating array operations\<close>

fun nan_add :: "real option \<Rightarrow> real option \<Rightarrow> real option" where
  "nan_add (Some a) (Some b) = Some (a + b)"
| "nan_add _ _ = None"

definition fillna :: "real \<Rightarrow> real option list \<Rightarrow> real option list" where
  "fillna v xs = map (\<lambda>x. case x of None \<Rightarrow> Some v | Some y \<Rightarrow> Some y) xs"

text \<open>\<^verbatim>\<open>a.where(cond)\<close> keeps the value where the condition holds and gives NaN elsewhere;
  \<^verbatim>\<open>a.where(cond, other)\<close> takes the value of \<^verbatim>\<open>other\<close> elsewhere. A comparison with NaN
  by \<^verbatim>\<open>==\<close> is false and by \<^verbatim>\<open>!=\<close> is true.\<close>

definition where_eq :: "real option list \<Rightarrow> real \<Rightarrow> real option list" where
  "where_eq a v = map (\<lambda>x. if x = Some v then x else None) a"

definition where_ne :: "real option list \<Rightarrow> real \<Rightarrow> real option list \<Rightarrow> real option list" where
  "where_ne a v other = map2 (\<lambda>x y. if x \<noteq> Some v then x else y) a other"

subsection \<open>Lapse rates\<close>

definition lapse_top_down :: "real \<Rightarrow> real" where
  "lapse_top_down lev =
     (if lev \<ge> 226.32 then 6.5
      else if lev < 226.32 \<and> lev > 54.74 then 0
      else -1)"

definition lapse_bottom_up :: "real \<Rightarrow> real" where
  "lapse_bottom_up lev = (if lev \<ge> 8.68 then -2.8 else 0)"

subsection \<open>The body shared by the two loops\<close>

text \<open>Lines 93 to 108 and 128 to 143: the level's values with the sentinel in place of NaN,
  the sentinel-only copy, the height difference to the seed slab, and the values written
  back by label.\<close>

definition extrapolate :: "slab \<Rightarrow> slab \<Rightarrow> real \<Rightarrow> real option list" where
  "extrapolate t_p t_seed lapse =
     (let dummy = fillna (-99999) (cells t_p);
          nans = where_eq dummy (-99999);
          dz = standard_height t_seed - standard_height t_p;
          dtemp = dz * lapse;
          extp_temp = map2 (\<lambda>n a. nan_add (nan_add (nan_add n (Some 99999)) a) (Some dtemp))
                        nans (cells t_seed)
      in where_ne dummy (-99999) extp_temp)"

definition isnan_any :: "slab \<Rightarrow> bool" where
  "isnan_any t_p = (None \<in> set (cells t_p))"

subsection \<open>The two passes\<close>

definition top_down_step :: "real list \<Rightarrow> nat \<Rightarrow> field \<Rightarrow> error + field" where
  "top_down_step plevs_sorted i f =
     (case getitem plevs_sorted (int i) of Inl e \<Rightarrow> Inl e | Inr lev \<Rightarrow>
      (case sel f lev of Inl e \<Rightarrow> Inl e | Inr t_p \<Rightarrow>
        (let lapse = lapse_top_down lev in
         if isnan_any t_p \<and> lev > 50 then
           (case isel f (int i - 1) of Inl e \<Rightarrow> Inl e | Inr t_above \<Rightarrow>
              Inr (loc_assign f lev (extrapolate t_p t_above lapse)))
         else Inr f)))"

definition bottom_up_step :: "real list \<Rightarrow> nat \<Rightarrow> field \<Rightarrow> error + field" where
  "bottom_up_step bottom_top i f =
     (case getitem bottom_top (int i) of Inl e \<Rightarrow> Inl e | Inr lev \<Rightarrow>
      (case getitem bottom_top (int i - 1) of Inl e \<Rightarrow> Inl e | Inr lev_below \<Rightarrow>
       (case sel f lev of Inl e \<Rightarrow> Inl e | Inr t_p \<Rightarrow>
        (let lapse = lapse_bottom_up lev in
         if isnan_any t_p \<and> lev < 50 then
           (case sel f lev_below of Inl e \<Rightarrow> Inl e | Inr t_bellow \<Rightarrow>
              Inr (loc_assign f lev (extrapolate t_p t_bellow lapse)))
         else Inr f))))"

text \<open>\<^verbatim>\<open>for i in range(...)\<close>: the steps in order; an exception ends the loop.\<close>

fun for_range :: "(nat \<Rightarrow> field \<Rightarrow> error + field) \<Rightarrow> nat list \<Rightarrow> field \<Rightarrow> error + field" where
  "for_range body [] f = Inr f"
| "for_range body (i # is) f =
     (case body i f of Inl e \<Rightarrow> Inl e | Inr f' \<Rightarrow> for_range body is f')"

definition top_down_pass :: "real list \<Rightarrow> field \<Rightarrow> error + field" where
  "top_down_pass plevs_sorted f =
     for_range (top_down_step plevs_sorted) [0..<length plevs_sorted] f"

definition bottom_up_pass :: "real list \<Rightarrow> field \<Rightarrow> error + field" where
  "bottom_up_pass bottom_top f =
     for_range (bottom_up_step bottom_top) [0..<length bottom_top] f"

definition ext_temperature :: "field \<Rightarrow> real list \<Rightarrow> error + field" where
  "ext_temperature t_isob_z plevs =
     (let plevs_sorted = sort plevs in
      case top_down_pass plevs_sorted t_isob_z of Inl e \<Rightarrow> Inl e | Inr f1 \<Rightarrow>
        (let bottom_top = rev plevs_sorted in bottom_up_pass bottom_top f1))"

subsection \<open>Well-formed fields and the frame of a slab\<close>

text \<open>The array is rectangular: every level holds the same number of cells.\<close>

definition rectangular :: "field \<Rightarrow> bool" where
  "rectangular f \<longleftrightarrow> (\<forall>s\<in>set f. \<forall>t\<in>set f. length (cells s) = length (cells t))"

text \<open>Slab \<open>t\<close> keeps slab \<open>s\<close>: same coordinates, same shape, and every present cell of
  \<open>s\<close> other than the sentinel \<open>-99999\<close> has the same value in \<open>t\<close>.\<close>

definition keeps :: "slab \<Rightarrow> slab \<Rightarrow> bool" where
  "keeps s t \<longleftrightarrow>
     level t = level s \<and> standard_height t = standard_height s \<and>
     length (cells t) = length (cells s) \<and>
     (\<forall>c<length (cells s). \<forall>v. cells s ! c = Some v \<and> v \<noteq> - 99999 \<longrightarrow> cells t ! c = Some v)"

subsection \<open>The effect of one iteration on its slab\<close>

text \<open>What an iteration of the first loop, respectively of the second, makes of the slab
  \<open>s\<close> of its level when it reads the slab \<open>seed\<close>: the gate, the lapse rate and the
  values written, as in \<open>top_down_step\<close> and \<open>bottom_up_step\<close>.\<close>

definition top_down_slab :: "slab \<Rightarrow> slab \<Rightarrow> slab" where
  "top_down_slab s seed =
     (if isnan_any s \<and> 50 < level s
      then s\<lparr>cells := extrapolate s seed (lapse_top_down (level s))\<rparr> else s)"

definition bottom_up_slab :: "slab \<Rightarrow> slab \<Rightarrow> slab" where
  "bottom_up_slab s seed =
     (if isnan_any s \<and> level s < 50
      then s\<lparr>cells := extrapolate s seed (lapse_bottom_up (level s))\<rparr> else s)"

text \<open>Gaps only in the middle of the level range: every missing cell lies strictly between
  the first and the last stored level and has a present value at the same position on
  both adjacent levels.\<close>

definition gaps_in_middle :: "field \<Rightarrow> bool" where
  "gaps_in_middle f \<longleftrightarrow>
     (\<forall>j<length f. \<forall>c<length (cells (f ! j)). cells (f ! j) ! c = None \<longrightarrow>
        0 < j \<and> j + 1 < length f \<and>
        cells (f ! (j - 1)) ! c \<noteq> None \<and> cells (f ! (j + 1)) ! c \<noteq> None)"

section \<open>Auxiliary facts\<close>

subsection \<open>Indexing and selection\<close>

lemma getitem_nth: "i < length xs \<Longrightarrow> getitem xs (int i) = Inr (xs ! i)"
  by (simp add: getitem_def)

lemma getitem_pred: "0 < i \<Longrightarrow> i < length xs \<Longrightarrow> getitem xs (int i - 1) = Inr (xs ! (i - 1))"
  by (simp add: getitem_def Let_def nat_diff_distrib') 

lemma getitem_wrap: "0 < length xs \<Longrightarrow> getitem xs (- 1) = Inr (xs ! (length xs - 1))"
  by (cases xs) (simp_all add: getitem_def Let_def)

lemma sel_Inr_D: "sel f lev = Inr s \<Longrightarrow> s \<in> set f \<and> level s = lev"
  by (auto simp: sel_def find_Some_iff split: option.splits)

lemma sel_total: "lev \<in> level ` set f \<Longrightarrow> \<exists>s. sel f lev = Inr s"
  by (auto simp: sel_def find_None_iff split: option.splits)

lemma level_nth_inj:
  assumes "distinct (map level f)" "j < length f" "k < length f" "level (f ! k) = level (f ! j)"
  shows "k = j"
proof -
  have "map level f ! k = map level f ! j" using assms by simp
  then show ?thesis using assms nth_eq_iff_index_eq [of "map level f" k j] by simp
qed

lemma sel_nth:
  assumes "distinct (map level f)" "j < length f"
  shows "sel f (level (f ! j)) = Inr (f ! j)"
proof -
  obtain s where s: "sel f (level (f ! j)) = Inr s"
    using sel_total [of "level (f ! j)" f] assms by auto
  then have "s \<in> set f" "level s = level (f ! j)" using sel_Inr_D by blast+
  then obtain k where "k < length f" "s = f ! k" by (auto simp: in_set_conv_nth)
  with assms \<open>level s = level (f ! j)\<close> have "k = j" by (auto intro: level_nth_inj)
  with s \<open>s = f ! k\<close> show ?thesis by simp
qed

lemma loc_assign_nth:
  assumes "distinct (map level f)" "j < length f"
  shows "loc_assign f (level (f ! j)) new = f[j := (f ! j)\<lparr>cells := new\<rparr>]"
proof (rule nth_equalityI)
  show "length (loc_assign f (level (f ! j)) new) = length (f[j := (f ! j)\<lparr>cells := new\<rparr>])"
    by (simp add: loc_assign_def)
next
  fix k assume "k < length (loc_assign f (level (f ! j)) new)"
  then have k: "k < length f" by (simp add: loc_assign_def)
  show "loc_assign f (level (f ! j)) new ! k = f[j := (f ! j)\<lparr>cells := new\<rparr>] ! k"
  proof (cases "k = j")
    case True
    then show ?thesis using k by (simp add: loc_assign_def)
  next
    case False
    then have "level (f ! k) \<noteq> level (f ! j)" using level_nth_inj [OF assms k] by blast
    then show ?thesis using k False by (simp add: loc_assign_def)
  qed
qed

lemma length_extrapolate:
  "length (extrapolate t_p seed lapse) = min (length (cells t_p)) (length (cells seed))"
  by (simp add: extrapolate_def Let_def where_ne_def where_eq_def fillna_def)

lemma extrapolate_nth:
  assumes "c < length (cells t_p)" "c < length (cells seed)"
  shows "extrapolate t_p seed lapse ! c =
     (if cells t_p ! c = None \<or> cells t_p ! c = Some (- 99999)
      then map_option (\<lambda>v. v + (standard_height seed - standard_height t_p) * lapse) (cells seed ! c)
      else cells t_p ! c)"
  using assms
  by (cases "cells t_p ! c"; cases "cells seed ! c")
     (simp_all add: extrapolate_def Let_def where_ne_def where_eq_def fillna_def)

subsection \<open>One iteration of a loop\<close>

lemma getitem_Inr_D: "getitem xs k = Inr x \<Longrightarrow> x \<in> set xs"
  by (auto simp: getitem_def Let_def split: if_splits)

lemma top_down_step_cases:
  assumes d: "distinct (map level f)" and st: "top_down_step ps i f = Inr f'"
  shows "f' = f \<or> (\<exists>j seed. j < length f \<and> getitem ps (int i) = Inr (level (f ! j)) \<and>
            isnan_any (f ! j) \<and> 50 < level (f ! j) \<and> isel f (int i - 1) = Inr seed \<and>
            f' = f[j := (f ! j)\<lparr>cells := extrapolate (f ! j) seed (lapse_top_down (level (f ! j)))\<rparr>])"
proof -
  from st obtain lev where lev: "getitem ps (int i) = Inr lev"
    by (auto simp: top_down_step_def split: sum.splits)
  from st lev obtain t_p where tp: "sel f lev = Inr t_p"
    by (auto simp: top_down_step_def split: sum.splits)
  then have "t_p \<in> set f" "level t_p = lev" using sel_Inr_D by blast+
  then obtain j where j: "j < length f" "t_p = f ! j" by (auto simp: in_set_conv_nth)
  show ?thesis
  proof (cases "isnan_any t_p \<and> 50 < lev")
    case False
    with st lev tp show ?thesis by (auto simp: top_down_step_def)
  next
    case True
    with st lev tp obtain seed where seed: "isel f (int i - 1) = Inr seed"
      and f': "f' = loc_assign f lev (extrapolate t_p seed (lapse_top_down lev))"
      by (auto simp: top_down_step_def split: sum.splits)
    have "f' = f[j := (f ! j)\<lparr>cells := extrapolate (f ! j) seed (lapse_top_down (level (f ! j)))\<rparr>]"
      using f' j \<open>level t_p = lev\<close> loc_assign_nth [OF d j(1)] by simp
    with True j seed lev \<open>level t_p = lev\<close> show ?thesis by blast
  qed
qed

lemma bottom_up_step_cases:
  assumes d: "distinct (map level f)" and st: "bottom_up_step bt i f = Inr f'"
  shows "f' = f \<or> (\<exists>j lev_below seed. j < length f \<and> getitem bt (int i) = Inr (level (f ! j)) \<and>
            isnan_any (f ! j) \<and> level (f ! j) < 50 \<and>
            getitem bt (int i - 1) = Inr lev_below \<and> sel f lev_below = Inr seed \<and>
            f' = f[j := (f ! j)\<lparr>cells := extrapolate (f ! j) seed (lapse_bottom_up (level (f ! j)))\<rparr>])"
proof -
  from st obtain lev where lev: "getitem bt (int i) = Inr lev"
    by (auto simp: bottom_up_step_def split: sum.splits)
  from st lev obtain lev_below where lb: "getitem bt (int i - 1) = Inr lev_below"
    by (auto simp: bottom_up_step_def split: sum.splits)
  from st lev lb obtain t_p where tp: "sel f lev = Inr t_p"
    by (auto simp: bottom_up_step_def split: sum.splits)
  then have "t_p \<in> set f" "level t_p = lev" using sel_Inr_D by blast+
  then obtain j where j: "j < length f" "t_p = f ! j" by (auto simp: in_set_conv_nth)
  show ?thesis
  proof (cases "isnan_any t_p \<and> lev < 50")
    case False
    with st lev lb tp show ?thesis by (auto simp: bottom_up_step_def)
  next
    case True
    with st lev lb tp obtain seed where seed: "sel f lev_below = Inr seed"
      and f': "f' = loc_assign f lev (extrapolate t_p seed (lapse_bottom_up lev))"
      by (auto simp: bottom_up_step_def split: sum.splits)
    have "f' = f[j := (f ! j)\<lparr>cells := extrapolate (f ! j) seed (lapse_bottom_up (level (f ! j)))\<rparr>]"
      using f' j \<open>level t_p = lev\<close> loc_assign_nth [OF d j(1)] by simp
    with True j seed lev lb \<open>level t_p = lev\<close> show ?thesis by blast
  qed
qed

lemma top_down_step_aligned:
  assumes lv: "map level f = ps" and d: "distinct ps" and i: "i < length ps"
  shows "top_down_step ps i f =
     Inr (if isnan_any (f ! i) \<and> 50 < ps ! i
          then f[i := (f ! i)\<lparr>cells := extrapolate (f ! i)
                   (f ! (if i = 0 then length f - 1 else i - 1)) (lapse_top_down (ps ! i))\<rparr>]
          else f)"
proof -
  have n: "length f = length ps" using lv by (metis length_map)
  have li: "ps ! i = level (f ! i)" using lv i n by (metis nth_map)
  have df: "distinct (map level f)" using lv d by simp
  have s: "sel f (ps ! i) = Inr (f ! i)" using sel_nth [OF df] i n li by simp
  have seed: "isel f (int i - 1) = Inr (f ! (if i = 0 then length f - 1 else i - 1))"
  proof (cases "i = 0")
    case True
    then show ?thesis using getitem_wrap [of f] i n by (simp add: isel_def)
  next
    case False
    then show ?thesis using getitem_pred [of i f] i n by (simp add: isel_def)
  qed
  have la: "loc_assign f (ps ! i) new = f[i := (f ! i)\<lparr>cells := new\<rparr>]" for new
    using loc_assign_nth [OF df, of i new] i n li by simp
  show ?thesis
    unfolding top_down_step_def using i by (simp add: getitem_nth s seed la Let_def)
qed

lemma bottom_up_step_aligned:
  assumes lv: "map level f = ps" and d: "distinct ps" and i: "i < length ps"
  shows "bottom_up_step (rev ps) i f =
     Inr (if isnan_any (f ! (length ps - 1 - i)) \<and> ps ! (length ps - 1 - i) < 50
          then f[length ps - 1 - i := (f ! (length ps - 1 - i))\<lparr>cells :=
                   extrapolate (f ! (length ps - 1 - i))
                     (f ! (if i = 0 then 0 else length ps - i))
                     (lapse_bottom_up (ps ! (length ps - 1 - i)))\<rparr>]
          else f)"
proof -
  define j where "j = length ps - 1 - i"
  define k where "k = (if i = 0 then 0 else length ps - i)"
  have n: "length f = length ps" using lv by (metis length_map)
  have j: "j < length ps" using i by (simp add: j_def)
  have k: "k < length ps" using i by (auto simp: k_def)
  have lj: "ps ! j = level (f ! j)" using lv j n by (metis nth_map)
  have lk: "ps ! k = level (f ! k)" using lv k n by (metis nth_map)
  have df: "distinct (map level f)" using lv d by simp
  have g1: "getitem (rev ps) (int i) = Inr (ps ! j)"
    using getitem_nth [of i "rev ps"] i by (simp add: rev_nth j_def)
  have g2: "getitem (rev ps) (int i - 1) = Inr (ps ! k)"
  proof (cases "i = 0")
    case True
    then show ?thesis using getitem_wrap [of "rev ps"] i by (simp add: rev_nth k_def)
  next
    case False
    then have "rev ps ! (i - 1) = ps ! (length ps - i)" using i by (simp add: rev_nth)
    then show ?thesis using getitem_pred [of i "rev ps"] i False by (simp add: k_def)
  qed
  have s1: "sel f (ps ! j) = Inr (f ! j)" using sel_nth [OF df, of j] j n lj by simp
  have s2: "sel f (ps ! k) = Inr (f ! k)" using sel_nth [OF df, of k] k n lk by simp
  have la: "loc_assign f (ps ! j) new = f[j := (f ! j)\<lparr>cells := new\<rparr>]" for new
    using loc_assign_nth [OF df, of j new] j n lj by simp
  have "bottom_up_step (rev ps) i f =
     Inr (if isnan_any (f ! j) \<and> ps ! j < 50
          then f[j := (f ! j)\<lparr>cells := extrapolate (f ! j) (f ! k) (lapse_bottom_up (ps ! j))\<rparr>]
          else f)"
    by (simp add: bottom_up_step_def g1 g2 s1 s2 la Let_def)
  then show ?thesis by (simp only: j_def k_def)
qed

subsection \<open>The loops\<close>

lemma for_range_invariant:
  assumes "I f" and "for_range body ks f = Inr out"
    and "\<And>k g g'. k \<in> set ks \<Longrightarrow> I g \<Longrightarrow> body k g = Inr g' \<Longrightarrow> I g'"
  shows "I out"
  using assms
proof (induction ks arbitrary: f)
  case Nil
  then show ?case by simp
next
  case (Cons k ks)
  from Cons.prems(2) obtain g where g: "body k f = Inr g" "for_range body ks g = Inr out"
    by (auto split: sum.splits)
  have "I g" using Cons.prems(3) [of k f g] Cons.prems(1) g(1) by simp
  moreover have "I h'" if "k' \<in> set ks" "I h" "body k' h = Inr h'" for k' h h'
    using Cons.prems(3) [of k' h h'] that by simp
  ultimately show ?case using Cons.IH [of g] g(2) by blast
qed

lemma for_range_from:
  assumes "k \<le> n" and "I k f"
    and "\<And>i g. k \<le> i \<Longrightarrow> i < n \<Longrightarrow> I i g \<Longrightarrow> \<exists>g'. body i g = Inr g' \<and> I (Suc i) g'"
  shows "\<exists>out. for_range body [k..<n] f = Inr out \<and> I n out"
  using assms
proof (induction "n - k" arbitrary: k f)
  case 0
  then show ?case by simp
next
  case (Suc m)
  then have kn: "k < n" by simp
  then obtain g where g: "body k f = Inr g" "I (Suc k) g" using Suc.prems(2,3) by blast
  have "\<exists>out. for_range body [Suc k..<n] g = Inr out \<and> I n out"
  proof (rule Suc.hyps(1))
    show "m = n - Suc k" using Suc.hyps(2) by simp
    show "Suc k \<le> n" using kn by simp
    show "I (Suc k) g" by (rule g(2))
    show "\<And>i g. Suc k \<le> i \<Longrightarrow> i < n \<Longrightarrow> I i g \<Longrightarrow> \<exists>g'. body i g = Inr g' \<and> I (Suc i) g'"
      using Suc.prems(3) by simp
  qed
  then show ?case using kn g(1) by (simp add: upt_conv_Cons)
qed

lemma for_range_upt:
  assumes "I 0 f"
    and "\<And>i g. i < n \<Longrightarrow> I i g \<Longrightarrow> \<exists>g'. body i g = Inr g' \<and> I (Suc i) g'"
  shows "\<exists>out. for_range body [0..<n] f = Inr out \<and> I n out"
  using for_range_from [of 0 n I f body] assms by simp

lemma for_range_id:
  assumes "\<And>k. k \<in> set ks \<Longrightarrow> body k f = Inr f"
  shows "for_range body ks f = Inr f"
  using assms by (induction ks) simp_all

subsection \<open>Fields without missing cells\<close>

lemmas ext_eval = ext_temperature_def top_down_pass_def bottom_up_pass_def top_down_step_def
  bottom_up_step_def getitem_def sel_def isel_def loc_assign_def extrapolate_def fillna_def
  where_eq_def where_ne_def isnan_any_def lapse_top_down_def lapse_bottom_up_def

lemma top_down_step_full:
  assumes "\<forall>s\<in>set f. \<not> isnan_any s" "set ps \<subseteq> level ` set f" "i < length ps"
  shows "top_down_step ps i f = Inr f"
proof -
  have "ps ! i \<in> level ` set f" using assms(2,3) by auto
  then obtain s where s: "sel f (ps ! i) = Inr s" using sel_total by blast
  then have "\<not> isnan_any s" using sel_Inr_D assms(1) by blast
  then show ?thesis using s assms(3) by (simp add: top_down_step_def getitem_nth)
qed

lemma getitem_pred_total: "i < length xs \<Longrightarrow> \<exists>x. getitem xs (int i - 1) = Inr x"
  by (cases "i = 0") (auto simp: getitem_wrap getitem_pred)

lemma bottom_up_step_full:
  assumes "\<forall>s\<in>set f. \<not> isnan_any s" "set bt \<subseteq> level ` set f" "i < length bt"
  shows "bottom_up_step bt i f = Inr f"
proof -
  have "bt ! i \<in> level ` set f" using assms(2,3) by auto
  then obtain s where s: "sel f (bt ! i) = Inr s" using sel_total by blast
  then have ns: "\<not> isnan_any s" using sel_Inr_D assms(1) by blast
  obtain lb where lb: "getitem bt (int i - 1) = Inr lb" using getitem_pred_total assms(3) by blast
  show ?thesis using s ns lb assms(3) by (simp add: bottom_up_step_def getitem_nth)
qed

lemma ext_temperature_full:
  assumes "\<forall>s\<in>set f. \<not> isnan_any s" "set plevs \<subseteq> level ` set f"
  shows "ext_temperature f plevs = Inr f"
proof -
  have td: "top_down_pass (sort plevs) f = Inr f"
    unfolding top_down_pass_def using assms by (intro for_range_id top_down_step_full) auto
  have bu: "bottom_up_pass (rev (sort plevs)) f = Inr f"
    unfolding bottom_up_pass_def using assms by (intro for_range_id bottom_up_step_full) auto
  show ?thesis by (simp add: ext_temperature_def td bu)
qed

subsection \<open>The frame of a step\<close>

lemma keeps_refl: "keeps s s"
  by (simp add: keeps_def)

lemma keeps_trans: "keeps s t \<Longrightarrow> keeps t u \<Longrightarrow> keeps s u"
  by (simp add: keeps_def)

lemma keeps_extrapolate:
  assumes "length (cells seed) = length (cells s)"
  shows "keeps s (s\<lparr>cells := extrapolate s seed lapse\<rparr>)"
  using assms by (simp add: keeps_def length_extrapolate extrapolate_nth)

lemma frame_levels: "list_all2 keeps f g \<Longrightarrow> map level g = map level f"
  by (rule nth_equalityI) (auto simp: list_all2_conv_all_nth keeps_def)

lemma frame_rectangular:
  assumes "list_all2 keeps f g" "rectangular f"
  shows "rectangular g"
  unfolding rectangular_def
proof (intro ballI)
  fix s t assume "s \<in> set g" "t \<in> set g"
  then obtain j k where j: "j < length g" "s = g ! j" and k: "k < length g" "t = g ! k"
    by (metis in_set_conv_nth)
  have len: "length g = length f" using assms(1) by (simp add: list_all2_lengthD)
  have "keeps (f ! j) (g ! j)" "keeps (f ! k) (g ! k)"
    using assms(1) j(1) k(1) len by (simp_all add: list_all2_nthD)
  then have "length (cells (g ! j)) = length (cells (f ! j))"
    "length (cells (g ! k)) = length (cells (f ! k))"
    by (simp_all add: keeps_def)
  moreover have "length (cells (f ! j)) = length (cells (f ! k))"
    using assms(2) j(1) k(1) len by (simp add: rectangular_def)
  ultimately show "length (cells s) = length (cells t)" using j(2) k(2) by simp
qed

lemma frame_update:
  assumes fr: "list_all2 keeps f g" and j: "j < length g"
    and seed: "seed \<in> set g" and rect: "rectangular g"
  shows "list_all2 keeps f (g[j := (g ! j)\<lparr>cells := extrapolate (g ! j) seed lapse\<rparr>])"
proof -
  let ?t = "(g ! j)\<lparr>cells := extrapolate (g ! j) seed lapse\<rparr>"
  have "g ! j \<in> set g" using j by (rule nth_mem)
  with rect seed have "length (cells seed) = length (cells (g ! j))"
    unfolding rectangular_def by blast
  then have 1: "keeps (g ! j) ?t" by (rule keeps_extrapolate)
  have len: "length f = length g" using fr by (rule list_all2_lengthD)
  have 2: "keeps (f ! j) (g ! j)" using fr j len by (simp add: list_all2_nthD)
  have 3: "keeps (f ! j) ?t" using 2 1 by (rule keeps_trans)
  have "list_all2 keeps (f[j := f ! j]) (g[j := ?t])"
    using fr 3 by (rule list_all2_update_cong)
  then show ?thesis by simp
qed

lemma top_down_step_frame:
  assumes d: "distinct (map level f)" and r: "rectangular f" and fr: "list_all2 keeps f g"
    and st: "top_down_step ps i g = Inr g'"
  shows "list_all2 keeps f g'"
proof -
  have dg: "distinct (map level g)" using d frame_levels [OF fr] by simp
  have rg: "rectangular g" using fr r by (rule frame_rectangular)
  from top_down_step_cases [OF dg st] show ?thesis
  proof
    assume "g' = g" then show ?thesis using fr by simp
  next
    assume "\<exists>j seed. j < length g \<and> getitem ps (int i) = Inr (level (g ! j)) \<and>
            isnan_any (g ! j) \<and> 50 < level (g ! j) \<and> isel g (int i - 1) = Inr seed \<and>
            g' = g[j := (g ! j)\<lparr>cells := extrapolate (g ! j) seed (lapse_top_down (level (g ! j)))\<rparr>]"
    then obtain j seed where j: "j < length g" and s: "isel g (int i - 1) = Inr seed"
      and g': "g' = g[j := (g ! j)\<lparr>cells := extrapolate (g ! j) seed (lapse_top_down (level (g ! j)))\<rparr>]"
      by blast
    have "seed \<in> set g" using s getitem_Inr_D by (simp add: isel_def)
    then show ?thesis unfolding g' using fr j rg by (intro frame_update)
  qed
qed

lemma bottom_up_step_frame:
  assumes d: "distinct (map level f)" and r: "rectangular f" and fr: "list_all2 keeps f g"
    and st: "bottom_up_step bt i g = Inr g'"
  shows "list_all2 keeps f g'"
proof -
  have dg: "distinct (map level g)" using d frame_levels [OF fr] by simp
  have rg: "rectangular g" using fr r by (rule frame_rectangular)
  from bottom_up_step_cases [OF dg st] show ?thesis
  proof
    assume "g' = g" then show ?thesis using fr by simp
  next
    assume "\<exists>j lev_below seed. j < length g \<and> getitem bt (int i) = Inr (level (g ! j)) \<and>
            isnan_any (g ! j) \<and> level (g ! j) < 50 \<and>
            getitem bt (int i - 1) = Inr lev_below \<and> sel g lev_below = Inr seed \<and>
            g' = g[j := (g ! j)\<lparr>cells := extrapolate (g ! j) seed (lapse_bottom_up (level (g ! j)))\<rparr>]"
    then obtain j lev_below seed where j: "j < length g" and s: "sel g lev_below = Inr seed"
      and g': "g' = g[j := (g ! j)\<lparr>cells := extrapolate (g ! j) seed (lapse_bottom_up (level (g ! j)))\<rparr>]"
      by blast
    have "seed \<in> set g" using s sel_Inr_D by blast
    then show ?thesis unfolding g' using fr j rg by (intro frame_update)
  qed
qed

lemma top_down_pass_frame:
  assumes "distinct (map level f)" "rectangular f" "list_all2 keeps f g" "top_down_pass ps g = Inr out"
  shows "list_all2 keeps f out"
proof (rule for_range_invariant [where I = "list_all2 keeps f"])
  show "list_all2 keeps f g" by (rule assms(3))
  show "for_range (top_down_step ps) [0..<length ps] g = Inr out"
    using assms(4) by (simp add: top_down_pass_def)
  show "list_all2 keeps f h'" if "list_all2 keeps f h" "top_down_step ps k h = Inr h'" for k h h'
    using assms(1,2) that by (rule top_down_step_frame)
qed

lemma bottom_up_pass_frame:
  assumes "distinct (map level f)" "rectangular f" "list_all2 keeps f g" "bottom_up_pass bt g = Inr out"
  shows "list_all2 keeps f out"
proof (rule for_range_invariant [where I = "list_all2 keeps f"])
  show "list_all2 keeps f g" by (rule assms(3))
  show "for_range (bottom_up_step bt) [0..<length bt] g = Inr out"
    using assms(4) by (simp add: bottom_up_pass_def)
  show "list_all2 keeps f h'" if "list_all2 keeps f h" "bottom_up_step bt k h = Inr h'" for k h h'
    using assms(1,2) that by (rule bottom_up_step_frame)
qed

lemma ext_temperature_frame:
  assumes d: "distinct (map level f)" and r: "rectangular f" and run: "ext_temperature f plevs = Inr out"
  shows "list_all2 keeps f out"
proof -
  from run obtain f1 where td: "top_down_pass (sort plevs) f = Inr f1"
    and bu: "bottom_up_pass (rev (sort plevs)) f1 = Inr out"
    by (auto simp: ext_temperature_def Let_def split: sum.splits)
  have "list_all2 keeps f f" by (simp add: list_all2_refl keeps_refl)
  then have "list_all2 keeps f f1" using td by (rule top_down_pass_frame [OF d r])
  then show ?thesis using bu by (rule bottom_up_pass_frame [OF d r])
qed

subsection \<open>Fields stored in ascending order of pressure\<close>

lemma ascending_seed:
  assumes lv: "map level f = sort plevs" and d: "distinct plevs"
    and i: "0 < i" "i < length plevs"
  shows "isel f (int i - 1) = Inr (f ! (i - 1))"
    and "level (f ! (i - 1)) = sort plevs ! (i - 1)"
    and "level (f ! (i - 1)) < sort plevs ! i"
    and "\<forall>l\<in>set plevs. l < sort plevs ! i \<longrightarrow> l \<le> level (f ! (i - 1))"
proof -
  let ?ps = "sort plevs"
  have n: "length f = length plevs" using lv by (metis length_map length_sort)
  have np: "length ?ps = length plevs" by simp
  show "isel f (int i - 1) = Inr (f ! (i - 1))"
    using getitem_pred [of i f] i n by (simp add: isel_def)
  have "map level f ! (i - 1) = level (f ! (i - 1))" using i n by (simp add: nth_map)
  then show l: "level (f ! (i - 1)) = ?ps ! (i - 1)" using lv by simp
  have srt: "sorted ?ps" by simp
  have dst: "distinct ?ps" using d by simp
  have "?ps ! (i - 1) \<le> ?ps ! i" using srt i by (simp add: sorted_nth_mono)
  moreover have "?ps ! (i - 1) \<noteq> ?ps ! i"
    using dst i nth_eq_iff_index_eq [of ?ps "i - 1" i] by simp
  ultimately show "level (f ! (i - 1)) < ?ps ! i" using l by simp
  show "\<forall>l\<in>set plevs. l < ?ps ! i \<longrightarrow> l \<le> level (f ! (i - 1))"
  proof (intro ballI impI)
    fix x assume "x \<in> set plevs" and lt: "x < ?ps ! i"
    then have "x \<in> set ?ps" by simp
    then obtain k where k: "k < length ?ps" "?ps ! k = x" by (metis in_set_conv_nth)
    have "k < i"
    proof (rule ccontr)
      assume "\<not> k < i"
      then have "?ps ! i \<le> ?ps ! k" using srt k(1) by (simp add: sorted_nth_mono)
      with lt k(2) show False by simp
    qed
    then have "?ps ! k \<le> ?ps ! (i - 1)" using srt i by (simp add: sorted_nth_mono)
    with k(2) l show "x \<le> level (f ! (i - 1))" by simp
  qed
qed

subsection \<open>The passes on a field stored in the order of the levels\<close>

lemma top_down_pass_shape:
  assumes lv: "map level f = ps" and d: "distinct ps"
  shows "\<exists>out. top_down_pass ps f = Inr out \<and> length out = length f \<and> map level out = ps \<and>
           (0 < length f \<longrightarrow> out ! 0 = top_down_slab (f ! 0) (f ! (length f - 1))) \<and>
           (\<forall>i. 0 < i \<and> i < length f \<longrightarrow> out ! i = top_down_slab (f ! i) (out ! (i - 1)))"
proof -
  define n where "n = length ps"
  have nf: "length f = n" using lv n_def by (metis length_map)
  define I where "I k g \<longleftrightarrow> length g = n \<and> map level g = ps \<and>
      (\<forall>i. k \<le> i \<and> i < n \<longrightarrow> g ! i = f ! i) \<and>
      (0 < k \<and> 0 < n \<longrightarrow> g ! 0 = top_down_slab (f ! 0) (f ! (n - 1))) \<and>
      (\<forall>i. 0 < i \<and> i < k \<and> i < n \<longrightarrow> g ! i = top_down_slab (f ! i) (g ! (i - 1)))" for k g
  have init: "I 0 f" using nf lv by (simp add: I_def)
  have step: "\<exists>g'. top_down_step ps k g = Inr g' \<and> I (Suc k) g'" if k: "k < n" and inv: "I k g" for k g
  proof -
    from inv have lg: "length g = n" and lvg: "map level g = ps"
      and rest: "\<forall>i. k \<le> i \<and> i < n \<longrightarrow> g ! i = f ! i"
      and first: "0 < k \<and> 0 < n \<longrightarrow> g ! 0 = top_down_slab (f ! 0) (f ! (n - 1))"
      and prev: "\<forall>i. 0 < i \<and> i < k \<and> i < n \<longrightarrow> g ! i = top_down_slab (f ! i) (g ! (i - 1))"
      by (simp_all add: I_def)
    have gk: "g ! k = f ! k" using rest k by simp
    have lk: "ps ! k = level (g ! k)" using lvg k lg by (metis nth_map)
    define sp where "sp = (if k = 0 then length g - 1 else k - 1)"
    define g' where "g' = g[k := top_down_slab (g ! k) (g ! sp)]"
    have "g[k := g ! k] = g" by simp
    then have st: "top_down_step ps k g = Inr g'"
      using top_down_step_aligned [OF lvg d, of k] k lk
      by (simp add: g'_def sp_def n_def top_down_slab_def)
    have len': "length g' = n" using lg by (simp add: g'_def)
    have "level (top_down_slab (g ! k) (g ! sp)) = level (g ! k)" by (simp add: top_down_slab_def)
    then have "map level g' = (map level g)[k := level (g ! k)]" by (simp add: g'_def map_update)
    also have "\<dots> = (map level g)[k := map level g ! k]" using k lg by simp
    also have "\<dots> = map level g" by simp
    finally have lv': "map level g' = ps" using lvg by simp
    have at_k: "g' ! k = top_down_slab (f ! k) (g ! sp)" using k lg gk by (simp add: g'_def)
    have other: "g' ! i = g ! i" if "i \<noteq> k" for i using that by (simp add: g'_def)
    have a: "\<forall>i. Suc k \<le> i \<and> i < n \<longrightarrow> g' ! i = f ! i"
    proof (intro allI impI)
      fix i assume "Suc k \<le> i \<and> i < n"
      then have "i \<noteq> k" "k \<le> i \<and> i < n" by simp_all
      then show "g' ! i = f ! i" using other rest by simp
    qed
    have z: "0 < Suc k \<and> 0 < n \<longrightarrow> g' ! 0 = top_down_slab (f ! 0) (f ! (n - 1))"
    proof (cases "k = 0")
      case True
      have "g ! (n - 1) = f ! (n - 1)" using rest k True by simp
      then show ?thesis using True at_k lg by (simp add: sp_def)
    next
      case False
      then show ?thesis using first other [of 0] k by simp
    qed
    have b: "\<forall>i. 0 < i \<and> i < Suc k \<and> i < n \<longrightarrow> g' ! i = top_down_slab (f ! i) (g' ! (i - 1))"
    proof (intro allI impI)
      fix i assume i: "0 < i \<and> i < Suc k \<and> i < n"
      then have pk: "i - 1 \<noteq> k" by arith
      show "g' ! i = top_down_slab (f ! i) (g' ! (i - 1))"
      proof (cases "i = k")
        case True
        then have "sp = i - 1" using i by (simp add: sp_def)
        then show ?thesis using True at_k other [OF pk] by simp
      next
        case False
        then have "0 < i \<and> i < k \<and> i < n" using i by simp
        then have "g ! i = top_down_slab (f ! i) (g ! (i - 1))" using prev by blast
        then show ?thesis using other [OF False] other [OF pk] by simp
      qed
    qed
    have "I (Suc k) g'" unfolding I_def using len' lv' a z b by blast
    with st show ?thesis by blast
  qed
  have "\<exists>out. for_range (top_down_step ps) [0..<n] f = Inr out \<and> I n out"
    using init step by (rule for_range_upt [where I = I])
  then obtain out where run: "top_down_pass ps f = Inr out" and fin: "I n out"
    by (auto simp: top_down_pass_def n_def)
  from fin have "length out = length f" "map level out = ps" using nf by (simp_all add: I_def)
  moreover from fin have "0 < length f \<longrightarrow> out ! 0 = top_down_slab (f ! 0) (f ! (length f - 1))"
    using nf by (simp add: I_def)
  moreover from fin have "\<forall>i. 0 < i \<and> i < length f \<longrightarrow> out ! i = top_down_slab (f ! i) (out ! (i - 1))"
    using nf by (simp add: I_def)
  ultimately show ?thesis using run by blast
qed

lemma bottom_up_pass_shape:
  assumes lv: "map level f = ps" and d: "distinct ps"
  shows "\<exists>out. bottom_up_pass (rev ps) f = Inr out \<and> length out = length f \<and> map level out = ps \<and>
           (0 < length f \<longrightarrow> out ! (length f - 1) = bottom_up_slab (f ! (length f - 1)) (f ! 0)) \<and>
           (\<forall>p. p + 1 < length f \<longrightarrow> out ! p = bottom_up_slab (f ! p) (out ! (p + 1)))"
proof -
  define n where "n = length ps"
  have nf: "length f = n" using lv n_def by (metis length_map)
  define I where "I i g \<longleftrightarrow> length g = n \<and> map level g = ps \<and>
      (\<forall>p. p < n - i \<longrightarrow> g ! p = f ! p) \<and>
      (0 < i \<and> 0 < n \<longrightarrow> g ! (n - 1) = bottom_up_slab (f ! (n - 1)) (f ! 0)) \<and>
      (\<forall>p. n - i \<le> p \<and> p + 1 < n \<longrightarrow> g ! p = bottom_up_slab (f ! p) (g ! (p + 1)))" for i g
  have "\<forall>p. n - 0 \<le> p \<and> p + 1 < n \<longrightarrow> f ! p = bottom_up_slab (f ! p) (f ! (p + 1))" by auto
  then have init: "I 0 f" using nf lv by (simp add: I_def)
  have step: "\<exists>g'. bottom_up_step (rev ps) i g = Inr g' \<and> I (Suc i) g'" if i: "i < n" and inv: "I i g" for i g
  proof -
    from inv have lg: "length g = n" and lvg: "map level g = ps"
      and rest: "\<forall>p. p < n - i \<longrightarrow> g ! p = f ! p"
      and first: "0 < i \<and> 0 < n \<longrightarrow> g ! (n - 1) = bottom_up_slab (f ! (n - 1)) (f ! 0)"
      and prev: "\<forall>p. n - i \<le> p \<and> p + 1 < n \<longrightarrow> g ! p = bottom_up_slab (f ! p) (g ! (p + 1))"
      by (simp_all add: I_def)
    define q where "q = n - 1 - i"
    have q: "q < n" "q < n - i" using i by (simp_all add: q_def)
    have gq: "g ! q = f ! q" using rest q by simp
    have lq: "ps ! q = level (g ! q)" using lvg q lg by (metis nth_map)
    define sp where "sp = (if i = 0 then 0 else n - i)"
    define g' where "g' = g[q := bottom_up_slab (g ! q) (g ! sp)]"
    have "g[q := g ! q] = g" by simp
    then have st: "bottom_up_step (rev ps) i g = Inr g'"
      using bottom_up_step_aligned [OF lvg d, of i] i lq
      by (simp add: g'_def sp_def q_def n_def bottom_up_slab_def)
    have len': "length g' = n" using lg by (simp add: g'_def)
    have "level (bottom_up_slab (g ! q) (g ! sp)) = level (g ! q)" by (simp add: bottom_up_slab_def)
    then have "map level g' = (map level g)[q := level (g ! q)]" by (simp add: g'_def map_update)
    also have "\<dots> = (map level g)[q := map level g ! q]" using q lg by simp
    also have "\<dots> = map level g" by simp
    finally have lv': "map level g' = ps" using lvg by simp
    have at_q: "g' ! q = bottom_up_slab (f ! q) (g ! sp)" using q lg gq by (simp add: g'_def)
    have other: "g' ! p = g ! p" if "p \<noteq> q" for p using that by (simp add: g'_def)
    have a: "\<forall>p. p < n - Suc i \<longrightarrow> g' ! p = f ! p"
    proof (intro allI impI)
      fix p assume "p < n - Suc i"
      then have "p \<noteq> q" "p < n - i" by (simp_all add: q_def)
      then show "g' ! p = f ! p" using other rest by simp
    qed
    have z: "0 < Suc i \<and> 0 < n \<longrightarrow> g' ! (n - 1) = bottom_up_slab (f ! (n - 1)) (f ! 0)"
    proof (cases "i = 0")
      case True
      then have "q = n - 1" "sp = 0" by (simp_all add: q_def sp_def)
      moreover have "g ! 0 = f ! 0" using rest i True by simp
      ultimately show ?thesis using at_q by simp
    next
      case False
      then have "n - 1 \<noteq> q" using i by (simp add: q_def)
      then show ?thesis using first other [of "n - 1"] False i by simp
    qed
    have b: "\<forall>p. n - Suc i \<le> p \<and> p + 1 < n \<longrightarrow> g' ! p = bottom_up_slab (f ! p) (g' ! (p + 1))"
    proof (intro allI impI)
      fix p assume p: "n - Suc i \<le> p \<and> p + 1 < n"
      then have pq: "p + 1 \<noteq> q" using i by (simp add: q_def)
      show "g' ! p = bottom_up_slab (f ! p) (g' ! (p + 1))"
      proof (cases "p = q")
        case True
        then have "sp = p + 1" using p i by (auto simp: sp_def q_def)
        then show ?thesis using True at_q other [OF pq] by simp
      next
        case False
        then have "n - i \<le> p \<and> p + 1 < n" using p i by (auto simp: q_def)
        then have "g ! p = bottom_up_slab (f ! p) (g ! (p + 1))" using prev by blast
        then show ?thesis using other [OF False] other [OF pq] by simp
      qed
    qed
    have "I (Suc i) g'" unfolding I_def using len' lv' a z b by blast
    with st show ?thesis by blast
  qed
  have "\<exists>out. for_range (bottom_up_step (rev ps)) [0..<n] f = Inr out \<and> I n out"
    using init step by (rule for_range_upt [where I = I])
  then obtain out where run: "bottom_up_pass (rev ps) f = Inr out" and fin: "I n out"
    by (auto simp: bottom_up_pass_def n_def)
  from fin have "length out = length f" "map level out = ps" using nf by (simp_all add: I_def)
  moreover from fin have "0 < length f \<longrightarrow> out ! (length f - 1) = bottom_up_slab (f ! (length f - 1)) (f ! 0)"
    using nf by (simp add: I_def)
  moreover from fin have "\<forall>p. p + 1 < length f \<longrightarrow> out ! p = bottom_up_slab (f ! p) (out ! (p + 1))"
    using nf by (simp add: I_def)
  ultimately show ?thesis using run by blast
qed

lemma top_down_pass_recurrence:
  assumes lv: "map level f = ps" and d: "distinct ps"
  shows "\<exists>out. top_down_pass ps f = Inr out \<and> length out = length f \<and>
           (\<forall>i. 0 < i \<and> i < length f \<longrightarrow>
              out ! i = (if isnan_any (f ! i) \<and> 50 < ps ! i
                         then (f ! i)\<lparr>cells := extrapolate (f ! i) (out ! (i - 1))
                                          (lapse_top_down (ps ! i))\<rparr>
                         else f ! i))"
proof -
  from top_down_pass_shape [OF lv d] obtain out
    where run: "top_down_pass ps f = Inr out" and len: "length out = length f"
      and rec: "\<forall>i. 0 < i \<and> i < length f \<longrightarrow> out ! i = top_down_slab (f ! i) (out ! (i - 1))"
    by blast
  have "out ! i = (if isnan_any (f ! i) \<and> 50 < ps ! i
                   then (f ! i)\<lparr>cells := extrapolate (f ! i) (out ! (i - 1))
                                    (lapse_top_down (ps ! i))\<rparr>
                   else f ! i)" if i: "0 < i \<and> i < length f" for i
  proof -
    have "ps ! i = level (f ! i)" using lv i by (metis nth_map)
    then show ?thesis using rec i by (simp add: top_down_slab_def)
  qed
  with run len show ?thesis by blast
qed

subsection \<open>Filling a slab from a neighbour\<close>

lemma isnan_any_nth: "isnan_any s \<longleftrightarrow> (\<exists>c<length (cells s). cells s ! c = None)"
  unfolding isnan_any_def by (metis in_set_conv_nth)

lemma fill_from_neighbour:
  assumes k: "keeps s' seed" and len: "length (cells s') = length (cells s)"
    and ns: "Some (- 99999) \<notin> set (cells s)" and ns': "Some (- 99999) \<notin> set (cells s')"
    and nb: "\<forall>c<length (cells s). cells s ! c = None \<longrightarrow> cells s' ! c \<noteq> None"
  shows "\<not> isnan_any (s\<lparr>cells := extrapolate s seed lapse\<rparr>)"
proof
  assume "isnan_any (s\<lparr>cells := extrapolate s seed lapse\<rparr>)"
  then obtain c where c: "c < length (extrapolate s seed lapse)" and e: "extrapolate s seed lapse ! c = None"
    using isnan_any_nth [of "s\<lparr>cells := extrapolate s seed lapse\<rparr>"] by auto
  have ls: "length (cells seed) = length (cells s)" using k len by (simp add: keeps_def)
  then have cs: "c < length (cells s)" "c < length (cells seed)"
    using c by (simp_all add: length_extrapolate)
  have nsc: "cells s ! c \<noteq> Some (- 99999)" using ns cs(1) by (metis nth_mem)
  show False
  proof (cases "cells s ! c")
    case None
    then have "cells s' ! c \<noteq> None" using nb cs(1) by simp
    then obtain v where v: "cells s' ! c = Some v" by auto
    have "v \<noteq> - 99999" using ns' v cs(1) len by (metis nth_mem)
    then have "cells seed ! c = Some v" using k v cs(1) len by (simp add: keeps_def)
    then show False using e None extrapolate_nth [OF cs, of lapse] by simp
  next
    case (Some v)
    then show False using e nsc extrapolate_nth [OF cs, of lapse] by simp
  qed
qed

subsection \<open>The value written into a missing cell\<close>

lemma extrapolate_missing_cell:
  assumes "c < length (cells s)" "c < length (cells seed)"
    and "cells s ! c = None" and "cells seed ! c = Some v"
  shows "extrapolate s seed lapse ! c =
         Some (v + lapse * (standard_height seed - standard_height s))"
  using extrapolate_nth [OF assms(1,2), of lapse] assms(3,4) by (simp add: mult.commute)

lemma top_down_fill_value:
  assumes lv: "map level f = ps" and d: "distinct ps" and r: "rectangular f"
    and j: "0 < j" "j < length f" and c: "c < length (cells (f ! j))" "cells (f ! j) ! c = None"
    and gate: "50 < level (f ! j)" and seed: "cells (f ! (j - 1)) ! c = Some a"
  shows "\<exists>f'. top_down_step ps j f = Inr f' \<and>
           cells (f' ! j) ! c = Some (a + lapse_top_down (level (f ! j)) *
                                     (standard_height (f ! (j - 1)) - standard_height (f ! j)))"
proof -
  have n: "length f = length ps" using lv by (metis length_map)
  have lj: "ps ! j = level (f ! j)" using lv j by (metis nth_map)
  have nan: "isnan_any (f ! j)" using c isnan_any_nth by blast
  have "f ! (j - 1) \<in> set f" "f ! j \<in> set f" using j by simp_all
  then have "length (cells (f ! (j - 1))) = length (cells (f ! j))"
    using r unfolding rectangular_def by blast
  then have c': "c < length (cells (f ! (j - 1)))" using c(1) by simp
  have st: "top_down_step ps j f =
      Inr (f[j := (f ! j)\<lparr>cells := extrapolate (f ! j) (f ! (j - 1)) (lapse_top_down (level (f ! j)))\<rparr>])"
    using top_down_step_aligned [OF lv d, of j] j n nan gate lj by simp
  have "cells (f[j := (f ! j)\<lparr>cells := extrapolate (f ! j) (f ! (j - 1)) (lapse_top_down (level (f ! j)))\<rparr>] ! j) ! c
      = extrapolate (f ! j) (f ! (j - 1)) (lapse_top_down (level (f ! j))) ! c"
    using j by simp
  also have "\<dots> = Some (a + lapse_top_down (level (f ! j)) *
                                     (standard_height (f ! (j - 1)) - standard_height (f ! j)))"
    using c(1) c' c(2) seed by (rule extrapolate_missing_cell)
  finally show ?thesis using st by blast
qed

lemma bottom_up_fill_value:
  assumes lv: "map level f = ps" and d: "distinct ps" and r: "rectangular f"
    and j: "j + 1 < length f" and c: "c < length (cells (f ! j))" "cells (f ! j) ! c = None"
    and gate: "level (f ! j) < 50" and seed: "cells (f ! (j + 1)) ! c = Some b"
  shows "\<exists>f'. bottom_up_step (rev ps) (length f - 1 - j) f = Inr f' \<and>
           cells (f' ! j) ! c = Some (b + lapse_bottom_up (level (f ! j)) *
                                     (standard_height (f ! (j + 1)) - standard_height (f ! j)))"
proof -
  define i where "i = length f - 1 - j"
  have n: "length f = length ps" using lv by (metis length_map)
  have i: "i < length ps" "i \<noteq> 0" "length ps - 1 - i = j" "length ps - i = j + 1"
    using j n by (simp_all add: i_def)
  have lj: "ps ! j = level (f ! j)" using lv j by (metis Suc_eq_plus1 Suc_lessD nth_map)
  have nan: "isnan_any (f ! j)" using c isnan_any_nth by blast
  have "f ! (j + 1) \<in> set f" "f ! j \<in> set f" using j by simp_all
  then have "length (cells (f ! (j + 1))) = length (cells (f ! j))"
    using r unfolding rectangular_def by blast
  then have c': "c < length (cells (f ! (j + 1)))" using c(1) by simp
  have st: "bottom_up_step (rev ps) i f =
      Inr (f[j := (f ! j)\<lparr>cells := extrapolate (f ! j) (f ! (j + 1)) (lapse_bottom_up (level (f ! j)))\<rparr>])"
    using bottom_up_step_aligned [OF lv d i(1)] i(2,3,4) nan gate lj by simp
  have "cells (f[j := (f ! j)\<lparr>cells := extrapolate (f ! j) (f ! (j + 1)) (lapse_bottom_up (level (f ! j)))\<rparr>] ! j) ! c
      = extrapolate (f ! j) (f ! (j + 1)) (lapse_bottom_up (level (f ! j))) ! c"
    using j by simp
  also have "\<dots> = Some (b + lapse_bottom_up (level (f ! j)) *
                                     (standard_height (f ! (j + 1)) - standard_height (f ! j)))"
    using c(1) c' c(2) seed by (rule extrapolate_missing_cell)
  finally show ?thesis using st unfolding i_def by blast
qed

lemma single_gap_run:
  assumes lv: "map level f = sort plevs" and d: "distinct plevs" and r: "rectangular f"
    and j: "0 < j" "j + 1 < length f"
    and c: "c < length (cells (f ! j))" "cells (f ! j) ! c = None"
    and full: "\<forall>k<length f. k \<noteq> j \<longrightarrow> None \<notin> set (cells (f ! k))"
    and above: "cells (f ! (j - 1)) ! c = Some a" and below: "cells (f ! (j + 1)) ! c = Some b"
  shows "\<exists>out. ext_temperature f plevs = Inr out \<and>
           (50 < level (f ! j) \<longrightarrow>
              cells (out ! j) ! c = Some (a + lapse_top_down (level (f ! j)) *
                                     (standard_height (f ! (j - 1)) - standard_height (f ! j)))) \<and>
           (level (f ! j) < 50 \<longrightarrow>
              cells (out ! j) ! c = Some (b + lapse_bottom_up (level (f ! j)) *
                                     (standard_height (f ! (j + 1)) - standard_height (f ! j))))"
proof -
  define ps where "ps = sort plevs"
  define n where "n = length f"
  have lvp: "map level f = ps" using lv by (simp add: ps_def)
  have dp: "distinct ps" using d by (simp add: ps_def)
  have jn: "j < n" "j - 1 < n" "j + 1 < n" "j - 1 \<noteq> j" "j + 1 \<noteq> j" using j n_def by simp_all
  from top_down_pass_shape [OF lvp dp] obtain f1
    where run1: "top_down_pass ps f = Inr f1" and len1: "length f1 = n"
      and lv1: "map level f1 = ps"
      and z1: "0 < n \<longrightarrow> f1 ! 0 = top_down_slab (f ! 0) (f ! (n - 1))"
      and rec1: "\<forall>i. 0 < i \<and> i < n \<longrightarrow> f1 ! i = top_down_slab (f ! i) (f1 ! (i - 1))"
    unfolding n_def by blast
  from bottom_up_pass_shape [OF lv1 dp] obtain out
    where run2: "bottom_up_pass (rev ps) f1 = Inr out" and len2: "length out = n"
      and z2: "0 < n \<longrightarrow> out ! (n - 1) = bottom_up_slab (f1 ! (n - 1)) (f1 ! 0)"
      and rec2: "\<forall>p. p + 1 < n \<longrightarrow> out ! p = bottom_up_slab (f1 ! p) (out ! (p + 1))"
    unfolding len1 by blast
  have run: "ext_temperature f plevs = Inr out"
    using run1 run2 by (simp add: ext_temperature_def ps_def)
  have nan: "isnan_any (f ! j)" using c isnan_any_nth by blast
  have leni: "length (cells (f ! i)) = length (cells (f ! j))" if "i < n" for i
    using r that jn(1) n_def unfolding rectangular_def by (metis nth_mem)
  have ca: "c < length (cells (f ! (j - 1)))" using leni [OF jn(2)] c(1) by simp
  have cb: "c < length (cells (f ! (j + 1)))" using leni [OF jn(3)] c(1) by simp
  have lev1: "level (f1 ! j) = level (f ! j)"
    using lv1 lvp jn(1) len1 n_def by (metis nth_map)
  have f1j: "f1 ! j = top_down_slab (f ! j) (f1 ! (j - 1))" using rec1 j(1) jn(1) by simp
  have td: "cells (out ! j) ! c = Some (a + lapse_top_down (level (f ! j)) *
                                     (standard_height (f ! (j - 1)) - standard_height (f ! j)))"
    if hi: "50 < level (f ! j)"
  proof -
    have "\<not> isnan_any (f ! (j - 1))" using full jn n_def by (simp add: isnan_any_def)
    then have "top_down_slab (f ! (j - 1)) x = f ! (j - 1)" for x by (simp add: top_down_slab_def)
    moreover have "f1 ! (j - 1) = top_down_slab (f ! (j - 1)) (f1 ! (j - 1 - 1)) \<or> j - 1 = 0"
      using rec1 jn(2) by auto
    moreover have "f1 ! 0 = f ! 0" if "j - 1 = 0"
    proof -
      have "f1 ! 0 = top_down_slab (f ! 0) (f ! (n - 1))" using z1 jn(1) by simp
      then show ?thesis using \<open>\<not> isnan_any (f ! (j - 1))\<close> that by (simp add: top_down_slab_def)
    qed
    ultimately have s: "f1 ! (j - 1) = f ! (j - 1)" by auto
    have e1: "f1 ! j = (f ! j)\<lparr>cells := extrapolate (f ! j) (f ! (j - 1)) (lapse_top_down (level (f ! j)))\<rparr>"
      using f1j s nan hi by (simp add: top_down_slab_def)
    have "out ! j = bottom_up_slab (f1 ! j) (out ! (j + 1))" using rec2 jn(3) by simp
    then have "out ! j = f1 ! j" using hi lev1 by (simp add: bottom_up_slab_def)
    then have "cells (out ! j) ! c = extrapolate (f ! j) (f ! (j - 1)) (lapse_top_down (level (f ! j))) ! c"
      using e1 by simp
    also have "\<dots> = Some (a + lapse_top_down (level (f ! j)) *
                                     (standard_height (f ! (j - 1)) - standard_height (f ! j)))"
      using c(1) ca c(2) above by (rule extrapolate_missing_cell)
    finally show ?thesis .
  qed
  have bu: "cells (out ! j) ! c = Some (b + lapse_bottom_up (level (f ! j)) *
                                     (standard_height (f ! (j + 1)) - standard_height (f ! j)))"
    if lo: "level (f ! j) < 50"
  proof -
    have e1: "f1 ! j = f ! j" using f1j lo by (simp add: top_down_slab_def)
    have nf: "\<not> isnan_any (f ! (j + 1))" using full jn n_def by (simp add: isnan_any_def)
    have "f1 ! (j + 1) = top_down_slab (f ! (j + 1)) (f1 ! (j + 1 - 1))" using rec1 jn(3) by simp
    then have e2: "f1 ! (j + 1) = f ! (j + 1)" using nf by (simp add: top_down_slab_def)
    have "out ! (j + 1) = f1 ! (j + 1)"
    proof (cases "j + 1 + 1 < n")
      case True
      then have "out ! (j + 1) = bottom_up_slab (f1 ! (j + 1)) (out ! (j + 1 + 1))" using rec2 by simp
      then show ?thesis using nf e2 by (simp add: bottom_up_slab_def)
    next
      case False
      then have last: "j + 1 = n - 1" "0 < n" using jn(3) by simp_all
      then have "out ! (j + 1) = bottom_up_slab (f1 ! (j + 1)) (f1 ! 0)" using z2 by simp
      then show ?thesis using nf e2 by (simp add: bottom_up_slab_def)
    qed
    moreover have "out ! j = bottom_up_slab (f1 ! j) (out ! (j + 1))" using rec2 jn(3) by simp
    ultimately have "out ! j = (f ! j)\<lparr>cells := extrapolate (f ! j) (f ! (j + 1)) (lapse_bottom_up (level (f ! j)))\<rparr>"
      using e1 e2 nan lo by (simp add: bottom_up_slab_def)
    then have "cells (out ! j) ! c = extrapolate (f ! j) (f ! (j + 1)) (lapse_bottom_up (level (f ! j))) ! c"
      by simp
    also have "\<dots> = Some (b + lapse_bottom_up (level (f ! j)) *
                                     (standard_height (f ! (j + 1)) - standard_height (f ! j)))"
      using c(1) cb c(2) below by (rule extrapolate_missing_cell)
    finally show ?thesis .
  qed
  show ?thesis using run td bu by blast
qed

section \<open>Properties of the extrapolation\<close>

text \<open>
  Claim C8. On a field without any missing cell, whose level coordinate holds every supplied
  pressure level, \<^verbatim>\<open>ext_temperature\<close> returns the field exactly as it received it; a second
  run on the result therefore returns it unchanged as well.
\<close>

theorem identity_on_populated_field:
  assumes "\<forall>s\<in>set f. None \<notin> set (cells s)" and "set plevs \<subseteq> level ` set f"
  shows "ext_temperature f plevs = Inr f \<and>
         (case ext_temperature f plevs of Inl e \<Rightarrow> Inl e | Inr g \<Rightarrow> ext_temperature g plevs) = Inr f"
proof -
  have "ext_temperature f plevs = Inr f"
    using assms by (intro ext_temperature_full) (simp_all add: isnan_any_def)
  then show ?thesis by simp
qed

theorem identity_on_populated_field_witness:
  "ext_temperature
     [\<lparr>level = 10, standard_height = 31.05, cells = [Some 228.5]\<rparr>,
      \<lparr>level = 1000, standard_height = 0.11, cells = [Some 288.1]\<rparr>] [1000, 10] =
   Inr [\<lparr>level = 10, standard_height = 31.05, cells = [Some 228.5]\<rparr>,
        \<lparr>level = 1000, standard_height = 0.11, cells = [Some 288.1]\<rparr>]"
  using identity_on_populated_field
    [of "[\<lparr>level = 10, standard_height = 31.05, cells = [Some 228.5]\<rparr>,
          \<lparr>level = 1000, standard_height = 0.11, cells = [Some 288.1]\<rparr>]" "[1000, 10]"]
  by simp

text \<open>
  Claim C9, as stated, fails: with an empty list of pressure levels neither loop runs and
  the routine returns its field; nothing is raised.
\<close>

theorem empty_level_list_counterexample:
  "ext_temperature [\<lparr>level = 1000, standard_height = 0.11, cells = [Some 288.1, None]\<rparr>] [] =
   Inr [\<lparr>level = 1000, standard_height = 0.11, cells = [Some 288.1, None]\<rparr>]"
  by (simp add: ext_temperature_def top_down_pass_def bottom_up_pass_def)

text \<open>
  Claim C9, amended. When the supplied list of pressure levels is empty, \<^verbatim>\<open>ext_temperature\<close>
  returns the input field unchanged.
\<close>

theorem empty_level_list_returns_input: "ext_temperature f [] = Inr f"
  by (simp add: ext_temperature_def top_down_pass_def bottom_up_pass_def)

text \<open>
  Claim C7. A gap at the first level of a pass should stay missing. The code reads position
  \<open>i - 1 = -1\<close> there, which is the last element: in the first field the gap at 100 hPa, the
  first level of the top-down pass, receives the value of 500 hPa, the last stored level; in
  the second field the gap at 20 hPa, the first level of the bottom-up pass, is filled from
  10 hPa, the last element of the reversed list.
\<close>

theorem first_level_gap_wraps_around:
  "ext_temperature
     [\<lparr>level = 100, standard_height = 16.18, cells = [None]\<rparr>,
      \<lparr>level = 500, standard_height = 5.57, cells = [Some 252]\<rparr>] [100, 500] =
   Inr [\<lparr>level = 100, standard_height = 16.18, cells = [Some 252]\<rparr>,
        \<lparr>level = 500, standard_height = 5.57, cells = [Some 252]\<rparr>]
   \<and>
   ext_temperature
     [\<lparr>level = 10, standard_height = 31, cells = [Some 230]\<rparr>,
      \<lparr>level = 20, standard_height = 26, cells = [None]\<rparr>] [10, 20] =
   Inr [\<lparr>level = 10, standard_height = 31, cells = [Some 230]\<rparr>,
        \<lparr>level = 20, standard_height = 26, cells = [Some 216]\<rparr>]"
  by (simp add: ext_eval upt_rec)

text \<open>
  Claim C6, as stated, fails: the code marks missing cells with the sentinel \<open>-99999\<close> and
  then writes wherever the sentinel stands. A present cell that holds exactly \<open>-99999\<close>, at
  a level that also has a missing cell, is overwritten (second cell of the 1000 hPa level).
\<close>

theorem present_cells_kept_counterexample:
  "ext_temperature
     [\<lparr>level = 500, standard_height = 5.57, cells = [Some 252, Some 253]\<rparr>,
      \<lparr>level = 1000, standard_height = 0.11, cells = [None, Some (- 99999)]\<rparr>] [500, 1000] =
   Inr [\<lparr>level = 500, standard_height = 5.57, cells = [Some 252, Some 253]\<rparr>,
        \<lparr>level = 1000, standard_height = 0.11, cells = [Some 287.49, Some 288.49]\<rparr>]"
  by (simp add: ext_eval upt_rec)

text \<open>
  Claim C6, amended. On a rectangular field with distinct level labels, every cell that
  holds a present value other than the sentinel \<open>-99999\<close> before \<^verbatim>\<open>ext_temperature\<close> runs
  holds the same value afterwards, and the field keeps its shape: only cells that were
  missing, or that held the sentinel, are written.
\<close>

theorem present_cells_kept:
  assumes "distinct (map level f)" and "rectangular f"
    and "ext_temperature f plevs = Inr out"
    and "j < length f" and "c < length (cells (f ! j))"
    and "cells (f ! j) ! c = Some v" and "v \<noteq> - 99999"
  shows "length out = length f \<and> length (cells (out ! j)) = length (cells (f ! j)) \<and>
         cells (out ! j) ! c = Some v"
proof -
  have fr: "list_all2 keeps f out" using assms(1-3) by (rule ext_temperature_frame)
  then have "length out = length f" by (simp add: list_all2_lengthD)
  moreover have "keeps (f ! j) (out ! j)" using fr assms(4) by (simp add: list_all2_conv_all_nth)
  ultimately show ?thesis using assms(5-7) by (simp add: keeps_def)
qed

theorem present_cells_kept_witness:
  "cells ([\<lparr>level = 500, standard_height = 5.57, cells = [Some 252, Some 253]\<rparr>,
        \<lparr>level = 1000, standard_height = 0.11, cells = [Some 287.49, Some 288.49]\<rparr>] ! 0) ! 1 = Some 253"
  using present_cells_kept
    [of "[\<lparr>level = 500, standard_height = 5.57, cells = [Some 252, Some 253]\<rparr>,
          \<lparr>level = 1000, standard_height = 0.11, cells = [None, Some (- 99999)]\<rparr>]"
        "[500, 1000]"
        "[\<lparr>level = 500, standard_height = 5.57, cells = [Some 252, Some 253]\<rparr>,
          \<lparr>level = 1000, standard_height = 0.11, cells = [Some 287.49, Some 288.49]\<rparr>]"
        0 1 253]
  by (simp add: rectangular_def ext_eval upt_rec)

text \<open>
  Claim C2. One iteration of the first loop, at the level \<open>ps ! i\<close> stored at position \<open>j\<close>:
  the field is written exactly when that level has a missing cell and its pressure is
  strictly above 50 hPa; the values written are extrapolated from the slab at position
  \<open>i - 1\<close> with the lapse rate of the band of the current level (6.5 from 226.32 hPa on,
  0 strictly between 54.74 and 226.32 hPa, -1 otherwise); in every other case the field is
  left as it is.
\<close>

theorem top_down_gate_and_lapse:
  assumes "distinct (map level f)" and "i < length ps" and "j < length f"
    and "level (f ! j) = ps ! i"
  shows "top_down_step ps i f =
     (if None \<in> set (cells (f ! j)) \<and> 50 < ps ! i
      then (case isel f (int i - 1) of
              Inl e \<Rightarrow> Inl e
            | Inr t_above \<Rightarrow>
                Inr (f[j := (f ! j)\<lparr>cells := extrapolate (f ! j) t_above
                       (if 226.32 \<le> ps ! i then 6.5
                        else if 54.74 < ps ! i \<and> ps ! i < 226.32 then 0
                        else - 1)\<rparr>]))
      else Inr f)"
proof -
  have s: "sel f (ps ! i) = Inr (f ! j)"
    using sel_nth [OF assms(1,3)] assms(4) by simp
  have la: "loc_assign f (ps ! i) new = f[j := (f ! j)\<lparr>cells := new\<rparr>]" for new
    using loc_assign_nth [OF assms(1,3), of new] assms(4) by simp
  have g: "getitem ps (int i) = Inr (ps ! i)" using assms(2) by (rule getitem_nth)
  show ?thesis
    by (cases "isel f (int i - 1)")
       (simp_all add: top_down_step_def g s la isnan_any_def lapse_top_down_def Let_def)
qed

theorem top_down_gate_and_lapse_witness:
  "top_down_step [100, 500] 1
     [\<lparr>level = 100, standard_height = 16.18, cells = [Some 210]\<rparr>,
      \<lparr>level = 500, standard_height = 5.57, cells = [None]\<rparr>] =
   Inr [\<lparr>level = 100, standard_height = 16.18, cells = [Some 210]\<rparr>,
        \<lparr>level = 500, standard_height = 5.57, cells = [Some 278.965]\<rparr>]"
  using top_down_gate_and_lapse
    [of "[\<lparr>level = 100, standard_height = 16.18, cells = [Some 210]\<rparr>,
          \<lparr>level = 500, standard_height = 5.57, cells = [None]\<rparr>]" 1 "[100, 500]" 1]
  by (simp add: isel_def getitem_def extrapolate_def fillna_def where_eq_def where_ne_def)

text \<open>
  Claim C3. One iteration of the second loop, at the level \<open>bt ! i\<close> stored at position
  \<open>j\<close>: the field is written exactly when that level has a missing cell and its pressure is
  strictly below 50 hPa; the values written are extrapolated from the slab labelled
  \<open>bt[i - 1]\<close> with the lapse rate -2.8 from 8.68 hPa on and 0 below it; in every other case
  the field is left as it is.
\<close>

theorem bottom_up_gate_and_lapse:
  assumes "distinct (map level f)" and "i < length bt" and "j < length f"
    and "level (f ! j) = bt ! i"
  shows "bottom_up_step bt i f =
     (if None \<in> set (cells (f ! j)) \<and> bt ! i < 50
      then (case sel f (bt ! (if i = 0 then length bt - 1 else i - 1)) of
              Inl e \<Rightarrow> Inl e
            | Inr t_bellow \<Rightarrow>
                Inr (f[j := (f ! j)\<lparr>cells := extrapolate (f ! j) t_bellow
                       (if 8.68 \<le> bt ! i then - 2.8 else 0)\<rparr>]))
      else Inr f)"
proof -
  have s: "sel f (bt ! i) = Inr (f ! j)"
    using sel_nth [OF assms(1,3)] assms(4) by simp
  have la: "loc_assign f (bt ! i) new = f[j := (f ! j)\<lparr>cells := new\<rparr>]" for new
    using loc_assign_nth [OF assms(1,3), of new] assms(4) by simp
  have g: "getitem bt (int i) = Inr (bt ! i)" using assms(2) by (rule getitem_nth)
  have g': "getitem bt (int i - 1) = Inr (bt ! (if i = 0 then length bt - 1 else i - 1))"
  proof (cases "i = 0")
    case True
    then show ?thesis using getitem_wrap [of bt] assms(2) by simp
  next
    case False
    then show ?thesis using getitem_pred [of i bt] assms(2) by simp
  qed
  show ?thesis
    by (cases "sel f (bt ! (if i = 0 then length bt - 1 else i - 1))")
       (simp_all only: bottom_up_step_def g g' s la isnan_any_def lapse_bottom_up_def Let_def
          sum.case if_distrib [of Inr] split: if_splits)
qed

theorem bottom_up_gate_and_lapse_witness:
  "bottom_up_step [30, 20, 10] 1
     [\<lparr>level = 10, standard_height = 31.05, cells = [None]\<rparr>,
      \<lparr>level = 20, standard_height = 26.48, cells = [None]\<rparr>,
      \<lparr>level = 30, standard_height = 23.85, cells = [Some 220]\<rparr>] =
   Inr [\<lparr>level = 10, standard_height = 31.05, cells = [None]\<rparr>,
        \<lparr>level = 20, standard_height = 26.48, cells = [Some 227.364]\<rparr>,
        \<lparr>level = 30, standard_height = 23.85, cells = [Some 220]\<rparr>]"
  using bottom_up_gate_and_lapse
    [of "[\<lparr>level = 10, standard_height = 31.05, cells = [None]\<rparr>,
          \<lparr>level = 20, standard_height = 26.48, cells = [None]\<rparr>,
          \<lparr>level = 30, standard_height = 23.85, cells = [Some 220]\<rparr>]" 1 "[30, 20, 10]" 1]
  by (simp add: sel_def extrapolate_def fillna_def where_eq_def where_ne_def)

text \<open>
  Claim C10. The first loop takes the level of step \<open>i\<close> by label from the sorted list,
  and its seed by position \<open>i - 1\<close> in the order in which the field is stored. When the
  field is stored in ascending order of pressure on the supplied levels, the slab read at
  a step \<open>i > 0\<close> is the one labelled with the greatest supplied pressure below the current
  one, which is the adjacent level of higher altitude, and the step extrapolates from it.
  A field stored in descending order shows the other case: at step 1 the current level is
  500 hPa, its neighbour of higher altitude is 100 hPa, and the slab read is 1000 hPa.
\<close>

theorem top_down_seed_by_position:
  "(map level f = sort plevs \<and> distinct plevs \<and> 0 < i \<and> i < length plevs \<longrightarrow>
      isel f (int i - 1) = Inr (f ! (i - 1)) \<and>
      level (f ! (i - 1)) = sort plevs ! (i - 1) \<and>
      level (f ! (i - 1)) < sort plevs ! i \<and>
      (\<forall>l\<in>set plevs. l < sort plevs ! i \<longrightarrow> l \<le> level (f ! (i - 1))) \<and>
      top_down_step (sort plevs) i f =
        Inr (if isnan_any (f ! i) \<and> 50 < sort plevs ! i
             then f[i := (f ! i)\<lparr>cells := extrapolate (f ! i) (f ! (i - 1))
                      (lapse_top_down (sort plevs ! i))\<rparr>]
             else f))
   \<and>
   (sort [1000, 500, 100 :: real] ! 1 = 500 \<and> sort [1000, 500, 100 :: real] ! 0 = 100 \<and>
    isel [\<lparr>level = 1000, standard_height = 0.11, cells = [Some 290]\<rparr>,
          \<lparr>level = 500, standard_height = 5.57, cells = [None]\<rparr>,
          \<lparr>level = 100, standard_height = 16.18, cells = [None]\<rparr>] (int 1 - 1) =
      Inr \<lparr>level = 1000, standard_height = 0.11, cells = [Some 290]\<rparr> \<and>
    top_down_step (sort [1000, 500, 100]) 1
         [\<lparr>level = 1000, standard_height = 0.11, cells = [Some 290]\<rparr>,
          \<lparr>level = 500, standard_height = 5.57, cells = [None]\<rparr>,
          \<lparr>level = 100, standard_height = 16.18, cells = [None]\<rparr>] =
      Inr [\<lparr>level = 1000, standard_height = 0.11, cells = [Some 290]\<rparr>,
           \<lparr>level = 500, standard_height = 5.57, cells = [Some 254.51]\<rparr>,
           \<lparr>level = 100, standard_height = 16.18, cells = [None]\<rparr>])"
proof (intro conjI impI)
  assume h: "map level f = sort plevs \<and> distinct plevs \<and> 0 < i \<and> i < length plevs"
  then have lv: "map level f = sort plevs" and d: "distinct plevs" and i: "0 < i" "i < length plevs"
    by simp_all
  show "isel f (int i - 1) = Inr (f ! (i - 1))" using lv d i by (rule ascending_seed(1))
  show "level (f ! (i - 1)) = sort plevs ! (i - 1)" using lv d i by (rule ascending_seed(2))
  show "level (f ! (i - 1)) < sort plevs ! i" using lv d i by (rule ascending_seed(3))
  show "\<forall>l\<in>set plevs. l < sort plevs ! i \<longrightarrow> l \<le> level (f ! (i - 1))"
    using lv d i by (rule ascending_seed(4))
  have "distinct (sort plevs)" "i < length (sort plevs)" using d i by simp_all
  from top_down_step_aligned [OF lv this] i(1)
  show "top_down_step (sort plevs) i f =
        Inr (if isnan_any (f ! i) \<and> 50 < sort plevs ! i
             then f[i := (f ! i)\<lparr>cells := extrapolate (f ! i) (f ! (i - 1))
                      (lapse_top_down (sort plevs ! i))\<rparr>]
             else f)"
    by simp
qed (simp_all add: ext_eval)

theorem top_down_seed_by_position_witness:
  "map level [\<lparr>level = 100, standard_height = 16.18, cells = [Some 210]\<rparr>,
              \<lparr>level = 500, standard_height = 5.57, cells = [None]\<rparr>] = sort [500, 100] \<and>
   distinct [500, 100 :: real] \<and> (0::nat) < 1 \<and> 1 < length [500, 100 :: real] \<and>
   top_down_step (sort [500, 100]) 1
     [\<lparr>level = 100, standard_height = 16.18, cells = [Some 210]\<rparr>,
      \<lparr>level = 500, standard_height = 5.57, cells = [None]\<rparr>] =
   Inr [\<lparr>level = 100, standard_height = 16.18, cells = [Some 210]\<rparr>,
        \<lparr>level = 500, standard_height = 5.57, cells = [Some 278.965]\<rparr>]"
  using top_down_seed_by_position
    [of "[\<lparr>level = 100, standard_height = 16.18, cells = [Some 210]\<rparr>,
          \<lparr>level = 500, standard_height = 5.57, cells = [None]\<rparr>]" "[500, 100]" 1]
  by (simp add: isnan_any_def lapse_top_down_def extrapolate_def fillna_def where_eq_def where_ne_def)

text \<open>
  Claim C5, as stated, fails on its example. The first loop runs over the sorted levels,
  100 hPa first. With the field stored as the scenario lists it (1000, 500, 100 hPa;
  first equation) the 500 hPa level is filled from 1000 hPa and the 100 hPa level stays
  missing after the pass; with the same data stored in ascending order (second equation)
  the 100 hPa level is filled first, from the wrapped-around 1000 hPa slab with lapse 0,
  and the 500 hPa level is then filled from 100 hPa.
\<close>

theorem scenario_A_counterexample:
  "top_down_pass (sort [1000, 500, 100])
     [\<lparr>level = 1000, standard_height = 0.11, cells = [Some 290]\<rparr>,
      \<lparr>level = 500, standard_height = 5.57, cells = [None]\<rparr>,
      \<lparr>level = 100, standard_height = 16.18, cells = [None]\<rparr>] =
   Inr [\<lparr>level = 1000, standard_height = 0.11, cells = [Some 290]\<rparr>,
        \<lparr>level = 500, standard_height = 5.57, cells = [Some 254.51]\<rparr>,
        \<lparr>level = 100, standard_height = 16.18, cells = [None]\<rparr>]
   \<and>
   top_down_pass (sort [1000, 500, 100])
     [\<lparr>level = 100, standard_height = 16.18, cells = [None]\<rparr>,
      \<lparr>level = 500, standard_height = 5.57, cells = [None]\<rparr>,
      \<lparr>level = 1000, standard_height = 0.11, cells = [Some 290]\<rparr>] =
   Inr [\<lparr>level = 100, standard_height = 16.18, cells = [Some 290]\<rparr>,
        \<lparr>level = 500, standard_height = 5.57, cells = [Some 358.965]\<rparr>,
        \<lparr>level = 1000, standard_height = 0.11, cells = [Some 290]\<rparr>]"
  by (simp add: ext_eval upt_rec)

text \<open>
  Claim C5, amended. Extrapolation propagates cumulatively within the first loop: on a
  field stored in the order of the loop's levels, the slab written at a step \<open>i > 0\<close> is
  computed from the slab at position \<open>i - 1\<close> as the pass leaves it, fills of earlier steps
  included. Concretely, for the levels 100, 500, 1000 hPa with values 290 K, missing,
  missing, the pass fills 500 hPa from 100 hPa with lapse 6.5, and then 1000 hPa from the
  newly filled 500 hPa with lapse 6.5, the lapse of the band of 1000 hPa.
\<close>

theorem top_down_pass_cumulative:
  "(map level f = ps \<and> distinct ps \<longrightarrow>
      (\<exists>out. top_down_pass ps f = Inr out \<and> length out = length f \<and>
           (\<forall>i. 0 < i \<and> i < length f \<longrightarrow>
              out ! i = (if isnan_any (f ! i) \<and> 50 < ps ! i
                         then (f ! i)\<lparr>cells := extrapolate (f ! i) (out ! (i - 1))
                                          (lapse_top_down (ps ! i))\<rparr>
                         else f ! i))))
   \<and>
   top_down_pass (sort [100, 500, 1000])
     [\<lparr>level = 100, standard_height = h1, cells = [Some 290]\<rparr>,
      \<lparr>level = 500, standard_height = h2, cells = [None]\<rparr>,
      \<lparr>level = 1000, standard_height = h3, cells = [None]\<rparr>] =
   Inr [\<lparr>level = 100, standard_height = h1, cells = [Some 290]\<rparr>,
        \<lparr>level = 500, standard_height = h2, cells = [Some (290 + 6.5 * (h1 - h2))]\<rparr>,
        \<lparr>level = 1000, standard_height = h3,
           cells = [Some ((290 + 6.5 * (h1 - h2)) + 6.5 * (h2 - h3))]\<rparr>]"
proof (intro conjI impI)
  assume "map level f = ps \<and> distinct ps"
  then have "map level f = ps" "distinct ps" by simp_all
  then show "\<exists>out. top_down_pass ps f = Inr out \<and> length out = length f \<and>
           (\<forall>i. 0 < i \<and> i < length f \<longrightarrow>
              out ! i = (if isnan_any (f ! i) \<and> 50 < ps ! i
                         then (f ! i)\<lparr>cells := extrapolate (f ! i) (out ! (i - 1))
                                          (lapse_top_down (ps ! i))\<rparr>
                         else f ! i))"
    by (rule top_down_pass_recurrence)
qed (simp add: ext_eval upt_rec field_simps)

theorem top_down_pass_cumulative_witness:
  "map level [\<lparr>level = 100, standard_height = 16.18, cells = [Some 290]\<rparr>,
              \<lparr>level = 500, standard_height = 5.57, cells = [None]\<rparr>,
              \<lparr>level = 1000, standard_height = 0.11, cells = [None]\<rparr>] = [100, 500, 1000] \<and>
   distinct [100, 500, 1000 :: real] \<and>
   (\<exists>out. top_down_pass [100, 500, 1000]
       [\<lparr>level = 100, standard_height = 16.18, cells = [Some 290]\<rparr>,
        \<lparr>level = 500, standard_height = 5.57, cells = [None]\<rparr>,
        \<lparr>level = 1000, standard_height = 0.11, cells = [None]\<rparr>] = Inr out \<and>
      out ! 2 = \<lparr>level = 1000, standard_height = 0.11,
                 cells = extrapolate \<lparr>level = 1000, standard_height = 0.11, cells = [None]\<rparr>
                              (out ! 1) 6.5\<rparr>)"
proof -
  let ?F = "[\<lparr>level = 100, standard_height = 16.18, cells = [Some 290]\<rparr>,
             \<lparr>level = 500, standard_height = 5.57, cells = [None]\<rparr>,
             \<lparr>level = 1000, standard_height = 0.11, cells = [None]\<rparr>]"
  let ?PS = "[100, 500, 1000 :: real]"
  have h: "map level ?F = ?PS \<and> distinct ?PS" by simp
  note r = top_down_pass_cumulative [where f = ?F and ps = ?PS, THEN conjunct1, THEN mp, OF h]
  then obtain out where run: "top_down_pass ?PS ?F = Inr out"
    and rec: "\<forall>i. 0 < i \<and> i < length ?F \<longrightarrow>
         out ! i = (if isnan_any (?F ! i) \<and> 50 < ?PS ! i
                    then (?F ! i)\<lparr>cells := extrapolate (?F ! i) (out ! (i - 1))
                                     (lapse_top_down (?PS ! i))\<rparr>
                    else ?F ! i)"
    by blast
  have "out ! 2 = \<lparr>level = 1000, standard_height = 0.11,
                 cells = extrapolate \<lparr>level = 1000, standard_height = 0.11, cells = [None]\<rparr>
                              (out ! 1) 6.5\<rparr>"
    using rec [rule_format, of 2] by (simp add: isnan_any_def lapse_top_down_def)
  with run h show ?thesis by blast
qed

text \<open>
  Claim C1, as stated, fails in two ways. The first loop writes only at pressures above
  50 hPa and the second only below, so a gap at exactly 50 hPa is never filled (first
  field: the result is the input). And a present cell that holds the sentinel \<open>-99999\<close>
  is overwritten from its seed, which may be missing (second field: the sentinel at
  70 hPa becomes missing and the gap at 40 hPa, seeded from it, stays). Both fields have
  gaps only in the middle, with both adjacent levels present.
\<close>

theorem completeness_counterexample:
  "gaps_in_middle
     [\<lparr>level = 30, standard_height = 23.85, cells = [Some 220]\<rparr>,
      \<lparr>level = 50, standard_height = 20.58, cells = [None]\<rparr>,
      \<lparr>level = 70, standard_height = 18.44, cells = [Some 210]\<rparr>] \<and>
   ext_temperature
     [\<lparr>level = 30, standard_height = 23.85, cells = [Some 220]\<rparr>,
      \<lparr>level = 50, standard_height = 20.58, cells = [None]\<rparr>,
      \<lparr>level = 70, standard_height = 18.44, cells = [Some 210]\<rparr>] [30, 50, 70] =
   Inr [\<lparr>level = 30, standard_height = 23.85, cells = [Some 220]\<rparr>,
        \<lparr>level = 50, standard_height = 20.58, cells = [None]\<rparr>,
        \<lparr>level = 70, standard_height = 18.44, cells = [Some 210]\<rparr>] \<and>
   gaps_in_middle
     [\<lparr>level = 20, standard_height = 26.48, cells = [Some 215, Some 216]\<rparr>,
      \<lparr>level = 40, standard_height = 22.00, cells = [None, Some 222]\<rparr>,
      \<lparr>level = 70, standard_height = 18.44, cells = [Some (- 99999), None]\<rparr>,
      \<lparr>level = 100, standard_height = 16.18, cells = [Some 205, Some 206]\<rparr>] \<and>
   ext_temperature
     [\<lparr>level = 20, standard_height = 26.48, cells = [Some 215, Some 216]\<rparr>,
      \<lparr>level = 40, standard_height = 22.00, cells = [None, Some 222]\<rparr>,
      \<lparr>level = 70, standard_height = 18.44, cells = [Some (- 99999), None]\<rparr>,
      \<lparr>level = 100, standard_height = 16.18, cells = [Some 205, Some 206]\<rparr>] [20, 40, 70, 100] =
   Inr [\<lparr>level = 20, standard_height = 26.48, cells = [Some 215, Some 216]\<rparr>,
        \<lparr>level = 40, standard_height = 22.00, cells = [None, Some 222]\<rparr>,
        \<lparr>level = 70, standard_height = 18.44, cells = [None, Some 222]\<rparr>,
        \<lparr>level = 100, standard_height = 16.18, cells = [Some 205, Some 206]\<rparr>]"
proof (intro conjI)
  show "gaps_in_middle
     [\<lparr>level = 30, standard_height = 23.85, cells = [Some 220]\<rparr>,
      \<lparr>level = 50, standard_height = 20.58, cells = [None]\<rparr>,
      \<lparr>level = 70, standard_height = 18.44, cells = [Some 210]\<rparr>]"
    by (simp add: gaps_in_middle_def numeral_eq_Suc All_less_Suc)
  show "gaps_in_middle
     [\<lparr>level = 20, standard_height = 26.48, cells = [Some 215, Some 216]\<rparr>,
      \<lparr>level = 40, standard_height = 22.00, cells = [None, Some 222]\<rparr>,
      \<lparr>level = 70, standard_height = 18.44, cells = [Some (- 99999), None]\<rparr>,
      \<lparr>level = 100, standard_height = 16.18, cells = [Some 205, Some 206]\<rparr>]"
    by (simp add: gaps_in_middle_def numeral_eq_Suc All_less_Suc)
qed (simp_all add: ext_eval upt_rec)

text \<open>
  Claim C1, amended. For every field stored in ascending order of pressure on the supplied
  distinct levels, rectangular, with no missing cell at a level of exactly 50 hPa, with no
  present cell equal to the sentinel \<open>-99999\<close>, and in which every missing cell has both
  adjacent levels present, \<^verbatim>\<open>ext_temperature\<close> returns a field of the same levels that
  contains no missing cell. A level of 50 hPa may be among the levels, as it is in the
  reference set.
\<close>

theorem completeness:
  assumes lv: "map level f = sort plevs" and d: "distinct plevs" and r: "rectangular f"
    and no50: "\<forall>s\<in>set f. level s = 50 \<longrightarrow> None \<notin> set (cells s)"
    and ns: "\<forall>s\<in>set f. Some (- 99999) \<notin> set (cells s)"
    and gaps: "gaps_in_middle f"
  shows "\<exists>out. ext_temperature f plevs = Inr out \<and> length out = length f \<and>
           (\<forall>s\<in>set out. None \<notin> set (cells s))"
proof -
  define ps where "ps = sort plevs"
  define n where "n = length f"
  have lvp: "map level f = ps" using lv by (simp add: ps_def)
  have dp: "distinct ps" using d by (simp add: ps_def)
  have df: "distinct (map level f)" using lvp dp by simp
  have np: "length ps = n" using lvp n_def by (metis length_map)
  from top_down_pass_shape [OF lvp dp] obtain f1
    where run1: "top_down_pass ps f = Inr f1" and len1: "length f1 = n"
      and lv1: "map level f1 = ps"
      and z1: "0 < n \<longrightarrow> f1 ! 0 = top_down_slab (f ! 0) (f ! (n - 1))"
      and rec1: "\<forall>i. 0 < i \<and> i < n \<longrightarrow> f1 ! i = top_down_slab (f ! i) (f1 ! (i - 1))"
    unfolding n_def by blast
  from bottom_up_pass_shape [OF lv1 dp] obtain out
    where run2: "bottom_up_pass (rev ps) f1 = Inr out" and len2: "length out = n"
      and z2: "0 < n \<longrightarrow> out ! (n - 1) = bottom_up_slab (f1 ! (n - 1)) (f1 ! 0)"
      and rec2: "\<forall>p. p + 1 < n \<longrightarrow> out ! p = bottom_up_slab (f1 ! p) (out ! (p + 1))"
    unfolding len1 by blast
  have run: "ext_temperature f plevs = Inr out"
    using run1 run2 by (simp add: ext_temperature_def ps_def)
  have fr1: "list_all2 keeps f f1"
    using df r _ run1 by (rule top_down_pass_frame) (simp add: list_all2_refl keeps_refl)
  have fr2: "list_all2 keeps f out" using df r run by (rule ext_temperature_frame)
  have lev: "level (f ! i) = ps ! i" if "i < n" for i using lvp that n_def by (metis nth_map)
  have lev1: "level (f1 ! i) = ps ! i" if "i < n" for i using lv1 that len1 by (metis nth_map)
  have nsi: "Some (- 99999) \<notin> set (cells (f ! i))" if "i < n" for i
    using ns that n_def by (metis nth_mem)
  have leni: "length (cells (f ! i)) = length (cells (f ! j))" if "i < n" "j < n" for i j
    using r that n_def unfolding rectangular_def by (metis nth_mem)
  have k1: "keeps (f ! i) (f1 ! i)" if "i < n" for i
    using fr1 that n_def by (simp add: list_all2_nthD)
  have k2: "keeps (f ! i) (out ! i)" if "i < n" for i
    using fr2 that n_def by (simp add: list_all2_nthD)
  have td_slab_i: "f1 ! i = top_down_slab (f ! i) (f1 ! (i - 1)) \<or> f1 ! i = top_down_slab (f ! i) (f ! (n - 1))"
    if "i < n" for i using z1 rec1 that by (cases "i = 0") auto
  have bu_slab_p: "out ! p = bottom_up_slab (f1 ! p) (out ! (p + 1)) \<or> out ! p = bottom_up_slab (f1 ! p) (f1 ! 0)"
    if "p < n" for p
  proof (cases "p + 1 < n")
    case True
    then show ?thesis using rec2 by simp
  next
    case False
    then have "p = n - 1" "0 < n" using that by simp_all
    then show ?thesis using z2 by simp
  qed
  have A: "\<not> isnan_any (f1 ! i)" if i: "i < n" and hi: "50 < ps ! i" for i
  proof (cases "isnan_any (f ! i)")
    case False
    then have "top_down_slab (f ! i) x = f ! i" for x by (simp add: top_down_slab_def)
    then show ?thesis using td_slab_i [OF i] False by auto
  next
    case True
    then obtain c where c: "c < length (cells (f ! i))" "cells (f ! i) ! c = None"
      using isnan_any_nth by blast
    then have i0: "0 < i" using gaps i n_def by (simp add: gaps_in_middle_def)
    then have eq: "f1 ! i = (f ! i)\<lparr>cells := extrapolate (f ! i) (f1 ! (i - 1)) (lapse_top_down (level (f ! i)))\<rparr>"
      using rec1 i True hi lev [OF i] by (simp add: top_down_slab_def)
    have im: "i - 1 < n" using i by simp
    have nb: "\<forall>c<length (cells (f ! i)). cells (f ! i) ! c = None \<longrightarrow> cells (f ! (i - 1)) ! c \<noteq> None"
      using gaps i n_def by (simp add: gaps_in_middle_def)
    show ?thesis unfolding eq
      using k1 [OF im] leni [OF im i] nsi [OF i] nsi [OF im] nb by (rule fill_from_neighbour)
  qed
  have B: "f1 ! i = f ! i" if i: "i < n" and lo: "ps ! i < 50" for i
  proof -
    have "top_down_slab (f ! i) x = f ! i" for x using lo lev [OF i] by (simp add: top_down_slab_def)
    then show ?thesis using td_slab_i [OF i] by auto
  qed
  have C: "\<not> isnan_any (out ! p)" if p: "p < n" and hi: "50 < ps ! p" for p
  proof -
    have "bottom_up_slab (f1 ! p) x = f1 ! p" for x using hi lev1 [OF p] by (simp add: bottom_up_slab_def)
    then have "out ! p = f1 ! p" using bu_slab_p [OF p] by auto
    then show ?thesis using A [OF p hi] by simp
  qed
  have D: "\<not> isnan_any (out ! p)" if p: "p < n" and lo: "ps ! p < 50" for p
  proof (cases "isnan_any (f ! p)")
    case False
    then have "bottom_up_slab (f1 ! p) x = f ! p" for x using B [OF p lo] by (simp add: bottom_up_slab_def)
    then show ?thesis using bu_slab_p [OF p] False by auto
  next
    case True
    then obtain c where c: "c < length (cells (f ! p))" "cells (f ! p) ! c = None"
      using isnan_any_nth by blast
    then have p1: "p + 1 < n" using gaps p n_def by (simp add: gaps_in_middle_def)
    then have eq: "out ! p = (f ! p)\<lparr>cells := extrapolate (f ! p) (out ! (p + 1)) (lapse_bottom_up (level (f ! p)))\<rparr>"
      using rec2 True lo lev [OF p] B [OF p lo] by (simp add: bottom_up_slab_def)
    have nb: "\<forall>c<length (cells (f ! p)). cells (f ! p) ! c = None \<longrightarrow> cells (f ! (p + 1)) ! c \<noteq> None"
      using gaps p n_def by (simp add: gaps_in_middle_def)
    show ?thesis unfolding eq
      using k2 [OF p1] leni [OF p1 p] nsi [OF p] nsi [OF p1] nb by (rule fill_from_neighbour)
  qed
  have E: "\<not> isnan_any (out ! p)" if p: "p < n" and eq: "ps ! p = 50" for p
  proof -
    have "f ! p \<in> set f" using p n_def by simp
    moreover have "level (f ! p) = 50" using lev [OF p] eq by simp
    ultimately have nf: "\<not> isnan_any (f ! p)" using no50 by (simp add: isnan_any_def)
    then have "top_down_slab (f ! p) x = f ! p" for x by (simp add: top_down_slab_def)
    then have e1: "f1 ! p = f ! p" using td_slab_i [OF p] by auto
    then have "bottom_up_slab (f1 ! p) x = f ! p" for x using nf by (simp add: bottom_up_slab_def)
    then have "out ! p = f ! p" using bu_slab_p [OF p] by auto
    then show ?thesis using nf by simp
  qed
  have "None \<notin> set (cells s)" if "s \<in> set out" for s
  proof -
    from that obtain p where p: "p < n" "s = out ! p" using len2 by (metis in_set_conv_nth)
    have "50 < ps ! p \<or> ps ! p < 50 \<or> ps ! p = 50" by auto
    then have "\<not> isnan_any (out ! p)" using C [OF p(1)] D [OF p(1)] E [OF p(1)] by blast
    then show ?thesis using p(2) by (simp add: isnan_any_def)
  qed
  then show ?thesis using run len2 n_def by blast
qed

theorem completeness_witness:
  "\<exists>out. ext_temperature
       [\<lparr>level = 20, standard_height = 26.48, cells = [Some 215, Some 216]\<rparr>,
        \<lparr>level = 40, standard_height = 22.00, cells = [None, Some 222]\<rparr>,
        \<lparr>level = 50, standard_height = 20.58, cells = [Some 218, Some 219]\<rparr>,
        \<lparr>level = 70, standard_height = 18.44, cells = [Some 211, None]\<rparr>,
        \<lparr>level = 100, standard_height = 16.18, cells = [Some 205, Some 206]\<rparr>]
       [100, 70, 50, 40, 20] = Inr out \<and>
     (\<forall>s\<in>set out. None \<notin> set (cells s))"
proof -
  let ?F = "[\<lparr>level = 20, standard_height = 26.48, cells = [Some 215, Some 216]\<rparr>,
        \<lparr>level = 40, standard_height = 22.00, cells = [None, Some 222]\<rparr>,
        \<lparr>level = 50, standard_height = 20.58, cells = [Some 218, Some 219]\<rparr>,
        \<lparr>level = 70, standard_height = 18.44, cells = [Some 211, None]\<rparr>,
        \<lparr>level = 100, standard_height = 16.18, cells = [Some 205, Some 206]\<rparr>]"
  let ?P = "[100, 70, 50, 40, 20 :: real]"
  have 1: "map level ?F = sort ?P" by simp
  have 2: "distinct ?P" by simp
  have 3: "rectangular ?F" by (simp add: rectangular_def)
  have 4: "\<forall>s\<in>set ?F. level s = 50 \<longrightarrow> None \<notin> set (cells s)" by simp
  have 5: "\<forall>s\<in>set ?F. Some (- 99999) \<notin> set (cells s)" by simp
  have 6: "gaps_in_middle ?F" by (simp add: gaps_in_middle_def numeral_eq_Suc All_less_Suc)
  from completeness [OF 1 2 3 4 5 6] show ?thesis by blast
qed

text \<open>
  Claim C4. Let the field be stored in ascending order of pressure on the supplied levels,
  and let cell \<open>c\<close> of the level at position \<open>j\<close> be missing. An iteration of the first
  loop at that level (pressure above 50 hPa) writes into the cell the value of the same
  cell at position \<open>j - 1\<close>, the level of the previous iteration, plus the lapse rate of
  the first loop times the standard height of that level minus the standard height of the
  current one. An iteration of the second loop at that level (pressure below 50 hPa) does
  the same from position \<open>j + 1\<close>, the level of its previous iteration, with the lapse
  rate of the second loop. In particular, when the level at \<open>j\<close> is the only one with
  missing cells and lies between two other levels, the field returned by
  \<^verbatim>\<open>ext_temperature\<close> holds exactly that value in the cell, for either direction.
\<close>

theorem filled_value_is_seed_plus_lapse:
  assumes "map level f = sort plevs" and "distinct plevs" and "rectangular f"
    and "j < length f" and "c < length (cells (f ! j))" and "cells (f ! j) ! c = None"
  shows "(0 < j \<and> 50 < level (f ! j) \<and> cells (f ! (j - 1)) ! c = Some a \<longrightarrow>
            (\<exists>f'. top_down_step (sort plevs) j f = Inr f' \<and>
               cells (f' ! j) ! c = Some (a + lapse_top_down (level (f ! j)) *
                  (standard_height (f ! (j - 1)) - standard_height (f ! j))))) \<and>
         (j + 1 < length f \<and> level (f ! j) < 50 \<and> cells (f ! (j + 1)) ! c = Some b \<longrightarrow>
            (\<exists>f'. bottom_up_step (rev (sort plevs)) (length f - 1 - j) f = Inr f' \<and>
               cells (f' ! j) ! c = Some (b + lapse_bottom_up (level (f ! j)) *
                  (standard_height (f ! (j + 1)) - standard_height (f ! j))))) \<and>
         (0 < j \<and> j + 1 < length f \<and>
          (\<forall>k<length f. k \<noteq> j \<longrightarrow> None \<notin> set (cells (f ! k))) \<and>
          cells (f ! (j - 1)) ! c = Some a \<and> cells (f ! (j + 1)) ! c = Some b \<longrightarrow>
            (\<exists>out. ext_temperature f plevs = Inr out \<and>
               (50 < level (f ! j) \<longrightarrow>
                  cells (out ! j) ! c = Some (a + lapse_top_down (level (f ! j)) *
                     (standard_height (f ! (j - 1)) - standard_height (f ! j)))) \<and>
               (level (f ! j) < 50 \<longrightarrow>
                  cells (out ! j) ! c = Some (b + lapse_bottom_up (level (f ! j)) *
                     (standard_height (f ! (j + 1)) - standard_height (f ! j))))))"
proof (intro conjI impI)
  have d: "distinct (sort plevs)" using assms(2) by simp
  {
    assume "0 < j \<and> 50 < level (f ! j) \<and> cells (f ! (j - 1)) ! c = Some a"
    then have h: "0 < j" "50 < level (f ! j)" "cells (f ! (j - 1)) ! c = Some a" by simp_all
    show "\<exists>f'. top_down_step (sort plevs) j f = Inr f' \<and>
               cells (f' ! j) ! c = Some (a + lapse_top_down (level (f ! j)) *
                  (standard_height (f ! (j - 1)) - standard_height (f ! j)))"
      using assms(1) d assms(3) h(1) assms(4,5,6) h(2,3) by (rule top_down_fill_value)
  next
    assume "j + 1 < length f \<and> level (f ! j) < 50 \<and> cells (f ! (j + 1)) ! c = Some b"
    then have h: "j + 1 < length f" "level (f ! j) < 50" "cells (f ! (j + 1)) ! c = Some b"
      by simp_all
    show "\<exists>f'. bottom_up_step (rev (sort plevs)) (length f - 1 - j) f = Inr f' \<and>
               cells (f' ! j) ! c = Some (b + lapse_bottom_up (level (f ! j)) *
                  (standard_height (f ! (j + 1)) - standard_height (f ! j)))"
      using assms(1) d assms(3) h(1) assms(5,6) h(2,3) by (rule bottom_up_fill_value)
  next
    assume "0 < j \<and> j + 1 < length f \<and>
          (\<forall>k<length f. k \<noteq> j \<longrightarrow> None \<notin> set (cells (f ! k))) \<and>
          cells (f ! (j - 1)) ! c = Some a \<and> cells (f ! (j + 1)) ! c = Some b"
    then have h: "0 < j" "j + 1 < length f"
      "\<forall>k<length f. k \<noteq> j \<longrightarrow> None \<notin> set (cells (f ! k))"
      "cells (f ! (j - 1)) ! c = Some a" "cells (f ! (j + 1)) ! c = Some b"
      by simp_all
    show "\<exists>out. ext_temperature f plevs = Inr out \<and>
               (50 < level (f ! j) \<longrightarrow>
                  cells (out ! j) ! c = Some (a + lapse_top_down (level (f ! j)) *
                     (standard_height (f ! (j - 1)) - standard_height (f ! j)))) \<and>
               (level (f ! j) < 50 \<longrightarrow>
                  cells (out ! j) ! c = Some (b + lapse_bottom_up (level (f ! j)) *
                     (standard_height (f ! (j + 1)) - standard_height (f ! j))))"
      using assms(1,2,3) h(1,2) assms(5,6) h(3,4,5) by (rule single_gap_run)
  }
qed

theorem filled_value_is_seed_plus_lapse_witness:
  "(\<exists>f'. top_down_step (sort [1000, 500, 100]) 1
           [\<lparr>level = 100, standard_height = 16.18, cells = [Some 210]\<rparr>,
            \<lparr>level = 500, standard_height = 5.57, cells = [None]\<rparr>,
            \<lparr>level = 1000, standard_height = 0.11, cells = [Some 288]\<rparr>] = Inr f' \<and>
         cells (f' ! 1) ! 0 = Some 278.965) \<and>
   (\<exists>out. ext_temperature
           [\<lparr>level = 100, standard_height = 16.18, cells = [Some 210]\<rparr>,
            \<lparr>level = 500, standard_height = 5.57, cells = [None]\<rparr>,
            \<lparr>level = 1000, standard_height = 0.11, cells = [Some 288]\<rparr>] [1000, 500, 100] = Inr out \<and>
         cells (out ! 1) ! 0 = Some 278.965) \<and>
   (\<exists>f'. bottom_up_step (rev (sort [30, 20, 10])) 1
           [\<lparr>level = 10, standard_height = 31.05, cells = [Some 230]\<rparr>,
            \<lparr>level = 20, standard_height = 26.48, cells = [None]\<rparr>,
            \<lparr>level = 30, standard_height = 23.85, cells = [Some 220]\<rparr>] = Inr f' \<and>
         cells (f' ! 1) ! 0 = Some 227.364) \<and>
   (\<exists>out. ext_temperature
           [\<lparr>level = 10, standard_height = 31.05, cells = [Some 230]\<rparr>,
            \<lparr>level = 20, standard_height = 26.48, cells = [None]\<rparr>,
            \<lparr>level = 30, standard_height = 23.85, cells = [Some 220]\<rparr>] [30, 20, 10] = Inr out \<and>
         cells (out ! 1) ! 0 = Some 227.364)"
proof -
  let ?F = "[\<lparr>level = 100, standard_height = 16.18, cells = [Some 210]\<rparr>,
            \<lparr>level = 500, standard_height = 5.57, cells = [None]\<rparr>,
            \<lparr>level = 1000, standard_height = 0.11, cells = [Some 288]\<rparr>]"
  let ?P = "[1000, 500, 100 :: real]"
  let ?G = "[\<lparr>level = 10, standard_height = 31.05, cells = [Some 230]\<rparr>,
            \<lparr>level = 20, standard_height = 26.48, cells = [None]\<rparr>,
            \<lparr>level = 30, standard_height = 23.85, cells = [Some 220]\<rparr>]"
  let ?Q = "[30, 20, 10 :: real]"
  have f: "map level ?F = sort ?P" "distinct ?P" "rectangular ?F" "1 < length ?F"
    "0 < length (cells (?F ! 1))" "cells (?F ! 1) ! 0 = None"
    by (simp_all add: rectangular_def)
  have g: "map level ?G = sort ?Q" "distinct ?Q" "rectangular ?G" "1 < length ?G"
    "0 < length (cells (?G ! 1))" "cells (?G ! 1) ! 0 = None"
    by (simp_all add: rectangular_def)
  note tf = filled_value_is_seed_plus_lapse [OF f, of 210 288]
  note tg = filled_value_is_seed_plus_lapse [OF g, of 230 220]
  have 1: "\<exists>f'. top_down_step (sort ?P) 1 ?F = Inr f' \<and> cells (f' ! 1) ! 0 = Some 278.965"
    using tf [THEN conjunct1] by (simp add: lapse_top_down_def)
  have 2: "\<exists>out. ext_temperature ?F ?P = Inr out \<and> cells (out ! 1) ! 0 = Some 278.965"
    using tf [THEN conjunct2, THEN conjunct2]
    by (simp add: lapse_top_down_def numeral_eq_Suc All_less_Suc)
  have 3: "\<exists>f'. bottom_up_step (rev (sort ?Q)) 1 ?G = Inr f' \<and> cells (f' ! 1) ! 0 = Some 227.364"
    using tg [THEN conjunct2, THEN conjunct1] by (simp add: lapse_bottom_up_def)
  have 4: "\<exists>out. ext_temperature ?G ?Q = Inr out \<and> cells (out ! 1) ! 0 = Some 227.364"
    using tg [THEN conjunct2, THEN conjunct2]
    by (simp add: lapse_bottom_up_def numeral_eq_Suc All_less_Suc)
  show ?thesis using 1 2 3 4 by blast
qed

end
